theory Spec2Isabelle
  imports Main "HOL-Library.Char_ord" "HOL-Library.List_Lexorder"
begin

section \<open>The batch driver of gemini\_analysis.py\<close>

text \<open>
  The program walks a directory of images, sends every image whose filename matches a
  regular expression to a remote model, and appends one line per answer to the file
  \<^verbatim>\<open>responses.txt\<close>. The filenames found in that file when the program starts are not
  sent again.

  The embedding is a state-passing one. What the program reads from outside is a
  parameter: the directory tree, the regular expression as a predicate on filenames,
  and the remote service as an oracle that answers the n-th call of a run with a text
  or fails. A character stands for a code point below 256. Console output is kept only
  where it tells what the loop did: the notice of an item already written, the report of
  a failed attempt and the final giving up.
\<close>

subsection \<open>The file system\<close>

text \<open>
  A path is the list of its components below \<^verbatim>\<open>args.image_directory\<close>, so that
  \<^verbatim>\<open>os.path.join(d, name)\<close> appends one component. A regular file carries whether
  \<^verbatim>\<open>PIL.Image.open\<close> can read it. A directory lists its entries in the order the
  operating system returns them. The tree has no symbolic links.
\<close>

type_synonym path = "string list"

datatype node = File bool | Dir "(string \<times> node) list" | Special

definition join :: "path \<Rightarrow> string \<Rightarrow> path" where
  "join d name = d @ [name]"

fun lookup :: "node \<Rightarrow> path \<Rightarrow> node option" where
  "lookup n [] = Some n"
| "lookup (Dir es) (x # xs) = (case map_of es x of None \<Rightarrow> None | Some c \<Rightarrow> lookup c xs)"
| "lookup n (x # xs) = None"

text \<open>\<^verbatim>\<open>os.listdir\<close>: the names of the entries, or None where Python raises.\<close>

definition listdir :: "node \<Rightarrow> path \<Rightarrow> string list option" where
  "listdir fs p = (case lookup fs p of Some (Dir es) \<Rightarrow> Some (map fst es) | _ \<Rightarrow> None)"

definition isfile :: "node \<Rightarrow> path \<Rightarrow> bool" where
  "isfile fs p = (case lookup fs p of Some (File ok) \<Rightarrow> True | _ \<Rightarrow> False)"

text \<open>\<^verbatim>\<open>Image.open\<close> returns for a readable image and raises otherwise.\<close>

definition image_open :: "node \<Rightarrow> path \<Rightarrow> bool" where
  "image_open fs p = (case lookup fs p of Some (File ok) \<Rightarrow> ok | _ \<Rightarrow> False)"

fun is_dir :: "node \<Rightarrow> bool" where
  "is_dir (Dir es) = True"
| "is_dir n = False"

definition dirnames_of :: "(string \<times> node) list \<Rightarrow> string list" where
  "dirnames_of es = map fst (filter (\<lambda>e. is_dir (snd e)) es)"

definition filenames_of :: "(string \<times> node) list \<Rightarrow> string list" where
  "filenames_of es = map fst (filter (\<lambda>e. \<not> is_dir (snd e)) es)"

text \<open>
  \<^verbatim>\<open>os.walk\<close>, top down: the triple of a directory, then the walks of its
  subdirectories in listing order. A top that is not a directory yields nothing.
\<close>

type_synonym walk_entry = "path \<times> string list \<times> string list"

fun walk :: "path \<Rightarrow> node \<Rightarrow> walk_entry list"
  and walk_children :: "path \<Rightarrow> (string \<times> node) list \<Rightarrow> walk_entry list" where
  "walk p (Dir es) = (p, dirnames_of es, filenames_of es) # walk_children p es"
| "walk p (File ok) = []"
| "walk p Special = []"
| "walk_children p [] = []"
| "walk_children p (e # es) = walk (join p (fst e)) (snd e) @ walk_children p es"

subsection \<open>Reading the result store\<close>

abbreviation LF :: char where "LF \<equiv> CHR 0x0A"
abbreviation CR :: char where "CR \<equiv> CHR 0x0D"

text \<open>
  The store is read in text mode: \<^verbatim>\<open>\r\n\<close> and a lone \<^verbatim>\<open>\r\<close> arrive as
  \<^verbatim>\<open>\n\<close>, and iterating over the file yields the lines with their terminator.
\<close>

fun universal_newlines :: "string \<Rightarrow> string" where
  "universal_newlines [] = []"
| "universal_newlines [c] = (if c = CR then [LF] else [c])"
| "universal_newlines (c # d # cs) =
     (if c = CR then (if d = LF then LF # universal_newlines cs
                      else LF # universal_newlines (d # cs))
      else c # universal_newlines (d # cs))"

fun file_lines :: "string \<Rightarrow> string list" where
  "file_lines [] = []"
| "file_lines (c # cs) =
     (if c = LF then [LF] # file_lines cs
      else (case file_lines cs of [] \<Rightarrow> [[c]] | l # ls \<Rightarrow> (c # l) # ls))"

text \<open>\<^verbatim>\<open>str.isspace\<close> on the code points below 256, and \<^verbatim>\<open>str.strip()\<close>.\<close>

definition is_space :: "char \<Rightarrow> bool" where
  "is_space c = (c \<in> {CHR 0x09, CHR 0x0A, CHR 0x0B, CHR 0x0C, CHR 0x0D, CHR 0x1C, CHR 0x1D,
                       CHR 0x1E, CHR 0x1F, CHR 0x20, CHR 0x85, CHR 0xA0})"

definition strip :: "string \<Rightarrow> string" where
  "strip s = rev (dropWhile is_space (rev (dropWhile is_space s)))"

text \<open>\<^verbatim>\<open>s.split(",")\<close>: never empty, so \<^verbatim>\<open>entry_list[0]\<close> always exists.\<close>

fun split_comma :: "string \<Rightarrow> string list" where
  "split_comma [] = [[]]"
| "split_comma (c # cs) =
     (if c = CHR '','' then [] # split_comma cs
      else (case split_comma cs of [] \<Rightarrow> [[c]] | f # fs \<Rightarrow> (c # f) # fs))"

definition first_field :: "string \<Rightarrow> string" where
  "first_field line = (case split_comma (strip line) of [] \<Rightarrow> [] | f # fs \<Rightarrow> f)"

text \<open>Lines 161 to 167 of the source: the loop that fills \<^verbatim>\<open>already_written_set\<close>.\<close>

definition load_ledger :: "string \<Rightarrow> string set" where
  "load_ledger content =
     fold (\<lambda>line already. insert (first_field line) already)
       (file_lines (universal_newlines content)) {}"

subsection \<open>The state of a run\<close>

datatype event =
    Skipping string
  | Submit path
  | Write string
  | Flush
  | Mark string
  | ErrorReport path nat
  | Sleep nat
  | GaveUp

datatype error = PromptFileError | StoreOpenError | ListDirError path | ImageOpenError path

record state =
  store :: string
  ledger :: "string set"
  calls :: nat
  trace :: "event list"

type_synonym client = "nat \<Rightarrow> path \<Rightarrow> string option"

definition max_retries :: nat where
  "max_retries = 4"

definition delay_seconds :: nat where
  "delay_seconds = 1"

subsection \<open>One item: the retry loop\<close>

text \<open>
  Lines 94 to 127. The body of \<^verbatim>\<open>try\<close> is the remote call, the write, the flush
  and the mark; the oracle's None stands for any exception raised there. The loop is
  entered with \<^verbatim>\<open>retry_count = 0\<close>. The newline is written as it is, as on a POSIX
  system, and a write is taken to succeed.
\<close>

definition response_csv_line :: "string \<Rightarrow> string \<Rightarrow> string" where
  "response_csv_line img_filename text = img_filename @ '', '' @ text @ [LF]"

function retry_loop :: "client \<Rightarrow> path \<Rightarrow> string \<Rightarrow> nat \<Rightarrow> state \<Rightarrow> state" where
  "retry_loop cl file_path img_filename retry_count s =
     (if retry_count < max_retries then
        (case cl (calls s) file_path of
           Some text \<Rightarrow>
             s\<lparr>store := store s @ response_csv_line img_filename text,
               ledger := insert img_filename (ledger s),
               calls := Suc (calls s),
               trace := trace s @ [Submit file_path,
                                   Write (response_csv_line img_filename text),
                                   Flush, Mark img_filename]\<rparr>
         | None \<Rightarrow>
             retry_loop cl file_path img_filename (retry_count + 1)
               (s\<lparr>calls := Suc (calls s),
                  trace := trace s @ [Submit file_path, ErrorReport file_path (retry_count + 1),
                                      (if retry_count + 1 < max_retries
                                       then Sleep (delay_seconds * (retry_count + 1))
                                       else GaveUp)]\<rparr>))
      else s)"
  by pat_completeness auto
termination
  by (relation "measure (\<lambda>(cl, file_path, img_filename, retry_count, s). max_retries - retry_count)")
     auto

declare retry_loop.simps [simp del]

subsection \<open>One directory\<close>

text \<open>
  Lines 72 to 127: the loop over \<^verbatim>\<open>sorted(os.listdir(img_dir))\<close>. An exception of
  \<^verbatim>\<open>Image.open\<close> is raised outside the \<^verbatim>\<open>try\<close> and leaves the function.
\<close>

fun process_entries ::
  "node \<Rightarrow> (string \<Rightarrow> bool) \<Rightarrow> client \<Rightarrow> path \<Rightarrow> string list \<Rightarrow> state \<Rightarrow> error option \<times> state" where
  "process_entries fs filter_re cl img_dir [] s = (None, s)"
| "process_entries fs filter_re cl img_dir (img_filename # rest) s =
     (if \<not> filter_re img_filename then process_entries fs filter_re cl img_dir rest s
      else if img_filename \<in> ledger s then
        process_entries fs filter_re cl img_dir rest (s\<lparr>trace := trace s @ [Skipping img_filename]\<rparr>)
      else if isfile fs (join img_dir img_filename) then
        (if image_open fs (join img_dir img_filename) then
           process_entries fs filter_re cl img_dir rest
             (retry_loop cl (join img_dir img_filename) img_filename 0 s)
         else (Some (ImageOpenError (join img_dir img_filename)), s))
      else process_entries fs filter_re cl img_dir rest s)"

definition send_filtered_image_prompts_for_directory ::
  "node \<Rightarrow> (string \<Rightarrow> bool) \<Rightarrow> client \<Rightarrow> path \<Rightarrow> state \<Rightarrow> error option \<times> state" where
  "send_filtered_image_prompts_for_directory fs filter_re cl img_dir s =
     (case listdir fs img_dir of
        None \<Rightarrow> (Some (ListDirError img_dir), s)
      | Some names \<Rightarrow> process_entries fs filter_re cl img_dir (sort names) s)"

subsection \<open>The whole run\<close>

record env =
  prompt_file :: "string option"
  responses_file :: "string option"
  responses_appendable :: bool
  image_directory :: node

text \<open>Lines 186 to 190: the loop over \<^verbatim>\<open>sorted(dirnames)\<close>.\<close>

fun subdirs_loop ::
  "node \<Rightarrow> (string \<Rightarrow> bool) \<Rightarrow> client \<Rightarrow> string list \<Rightarrow> state \<Rightarrow> error option \<times> state" where
  "subdirs_loop fs filter_re cl [] s = (None, s)"
| "subdirs_loop fs filter_re cl (subdirname # rest) s =
     (case send_filtered_image_prompts_for_directory fs filter_re cl (join [] subdirname) s of
        (Some e, s') \<Rightarrow> (Some e, s')
      | (None, s') \<Rightarrow> subdirs_loop fs filter_re cl rest s')"

text \<open>
  Lines 176 to 190: the loop over \<^verbatim>\<open>os.walk(args.image_directory)\<close>. It runs once
  for every directory of the tree, and both branches name their directory from
  \<^verbatim>\<open>args.image_directory\<close>, not from \<^verbatim>\<open>dirpath\<close>.
\<close>

fun walk_loop ::
  "node \<Rightarrow> (string \<Rightarrow> bool) \<Rightarrow> client \<Rightarrow> walk_entry list \<Rightarrow> state \<Rightarrow> error option \<times> state" where
  "walk_loop fs filter_re cl [] s = (None, s)"
| "walk_loop fs filter_re cl ((dirpath, dirnames, filenames) # rest) s =
     (case (if dirnames = [] then send_filtered_image_prompts_for_directory fs filter_re cl [] s
            else subdirs_loop fs filter_re cl (sort dirnames) s) of
        (Some e, s') \<Rightarrow> (Some e, s')
      | (None, s') \<Rightarrow> walk_loop fs filter_re cl rest s')"

text \<open>
  The state in which the loop starts: the store as found (empty when the file is new),
  the ledger loaded from it, no call made.
\<close>

definition initial_state :: "env \<Rightarrow> state" where
  "initial_state ev =
     \<lparr>store = (case responses_file ev of None \<Rightarrow> [] | Some content \<Rightarrow> content),
      ledger = (case responses_file ev of None \<Rightarrow> {} | Some content \<Rightarrow> load_ledger content),
      calls = 0,
      trace = []\<rparr>"

text \<open>
  Lines 156 to 190 of \<^verbatim>\<open>main\<close>: read the prompt, load the ledger, open the store for
  appending, walk. The listing of the models before line 156 is not modelled.
\<close>

definition main :: "env \<Rightarrow> client \<Rightarrow> (string \<Rightarrow> bool) \<Rightarrow> error option \<times> state" where
  "main ev cl filter_re =
     (case prompt_file ev of
        None \<Rightarrow> (Some PromptFileError, initial_state ev)
      | Some prompt_string \<Rightarrow>
          if \<not> responses_appendable ev then (Some StoreOpenError, initial_state ev)
          else walk_loop (image_directory ev) filter_re cl
                 (walk [] (image_directory ev)) (initial_state ev))"

text \<open>
  The default of \<^verbatim>\<open>--filter_re\<close>, \<^verbatim>\<open>[0-9].(jpg|png)$\<close> under \<^verbatim>\<open>re.search\<close>: somewhere
  a digit, one character that is not a newline, then jpg or png at the end of the name
  or before its final newline.
\<close>

definition is_digit :: "char \<Rightarrow> bool" where
  "is_digit c = (CHR ''0'' \<le> c \<and> c \<le> CHR ''9'')"

fun default_filter_re :: "string \<Rightarrow> bool" where
  "default_filter_re [] = False"
| "default_filter_re [c] = False"
| "default_filter_re (c # d # r) =
     ((is_digit c \<and> d \<noteq> LF \<and> (r = ''jpg'' \<or> r = ''png'' \<or> r = ''jpg'' @ [LF] \<or> r = ''png'' @ [LF]))
      \<or> default_filter_re (d # r))"

subsection \<open>What a run did: projections of the trace\<close>

text \<open>
  The paths submitted, the seconds slept, the lines written and the filenames marked, each
  in the order of the trace; and the events a computation added to the trace.
\<close>

fun submits :: "event list \<Rightarrow> path list" where
  "submits [] = []"
| "submits (Submit p # es) = p # submits es"
| "submits (e # es) = submits es"

fun sleeps :: "event list \<Rightarrow> nat list" where
  "sleeps [] = []"
| "sleeps (Sleep w # es) = w # sleeps es"
| "sleeps (e # es) = sleeps es"

fun writes :: "event list \<Rightarrow> string list" where
  "writes [] = []"
| "writes (Write l # es) = l # writes es"
| "writes (e # es) = writes es"

fun marks :: "event list \<Rightarrow> string list" where
  "marks [] = []"
| "marks (Mark f # es) = f # marks es"
| "marks (e # es) = marks es"

definition new_events :: "state \<Rightarrow> state \<Rightarrow> event list" where
  "new_events s s' = drop (length (trace s)) (trace s')"

text \<open>
  The events of one failed attempt that is not the last, and the events of the retry loop
  for one item: K failed attempts and a success, or \<^verbatim>\<open>max_retries\<close> failed attempts.
\<close>

definition failed_attempt :: "path \<Rightarrow> nat \<Rightarrow> event list" where
  "failed_attempt p k = [Submit p, ErrorReport p k, Sleep (delay_seconds * k)]"

definition success_events :: "path \<Rightarrow> string \<Rightarrow> nat \<Rightarrow> string \<Rightarrow> event list" where
  "success_events p fn K reply =
     concat (map (failed_attempt p) [1 ..< Suc K])
     @ [Submit p, Write (response_csv_line fn reply), Flush, Mark fn]"

definition exhausted_events :: "path \<Rightarrow> event list" where
  "exhausted_events p =
     concat (map (failed_attempt p) [1 ..< max_retries])
     @ [Submit p, ErrorReport p max_retries, GaveUp]"

subsection \<open>Relations between the state before and after a part of a run\<close>

text \<open>The store, the ledger and the call counter change only by what the trace records.\<close>

definition accounted :: "state \<Rightarrow> state \<Rightarrow> bool" where
  "accounted s s' \<longleftrightarrow>
     (\<exists>tr. trace s' = trace s @ tr \<and>
           store s' = store s @ concat (writes tr) \<and>
           ledger s' = ledger s \<union> set (marks tr) \<and>
           calls s' = calls s + length (submits tr))"

text \<open>
  A mark comes directly after the flush and the write of its line, and a write is
  followed by its flush and the mark of its filename.
\<close>

definition write_before_mark :: "event list \<Rightarrow> bool" where
  "write_before_mark tr \<longleftrightarrow>
     (\<forall>i f. i < length tr \<longrightarrow> tr ! i = Mark f \<longrightarrow>
        2 \<le> i \<and> tr ! (i - 1) = Flush \<and> (\<exists>reply. tr ! (i - 2) = Write (response_csv_line f reply)))"

definition extends_well :: "state \<Rightarrow> state \<Rightarrow> bool" where
  "extends_well s s' \<longleftrightarrow> (\<exists>tr. trace s' = trace s @ tr \<and> write_before_mark tr)"

definition every_write_marked :: "event list \<Rightarrow> bool" where
  "every_write_marked tr \<longleftrightarrow>
     (\<forall>i l. i < length tr \<longrightarrow> tr ! i = Write l \<longrightarrow>
        i + 2 < length tr \<and> (\<exists>f reply. l = response_csv_line f reply \<and> tr ! (i + 2) = Mark f))"

definition writes_marked :: "state \<Rightarrow> state \<Rightarrow> bool" where
  "writes_marked s s' \<longleftrightarrow> (\<exists>tr. trace s' = trace s @ tr \<and> every_write_marked tr)"

text \<open>
  Replaying a trace against the ledger it started from: a submission is for a filename
  not in the ledger at that moment, and a mark adds a filename that was not there.
\<close>

fun fresh :: "string set \<Rightarrow> event list \<Rightarrow> bool" where
  "fresh L [] = True"
| "fresh L (Submit p # es) = (p \<noteq> [] \<and> last p \<notin> L \<and> fresh L es)"
| "fresh L (Mark f # es) = (f \<notin> L \<and> fresh (insert f L) es)"
| "fresh L (e # es) = fresh L es"

definition submits_fresh :: "state \<Rightarrow> state \<Rightarrow> bool" where
  "submits_fresh s s' \<longleftrightarrow>
     (\<exists>tr. trace s' = trace s @ tr \<and> fresh (ledger s) tr \<and> ledger s' = ledger s \<union> set (marks tr))"

text \<open>Every submission is of a regular file whose name matches.\<close>

definition only_accepted :: "node \<Rightarrow> (string \<Rightarrow> bool) \<Rightarrow> state \<Rightarrow> state \<Rightarrow> bool" where
  "only_accepted fs filter_re s s' \<longleftrightarrow>
     (\<exists>tr. trace s' = trace s @ tr \<and>
           (\<forall>p \<in> set (submits tr). \<exists>d fn. p = join d fn \<and> filter_re fn \<and> isfile fs p))"

text \<open>Nothing happened but notices of items already written.\<close>

definition only_skips :: "state \<Rightarrow> state \<Rightarrow> bool" where
  "only_skips s s' \<longleftrightarrow> (\<exists>fns. s' = s\<lparr>trace := trace s @ map Skipping fns\<rparr>)"

text \<open>The directories the loop scans for an entry of the walk can be listed.\<close>

definition scannable :: "node \<Rightarrow> walk_entry \<Rightarrow> bool" where
  "scannable fs e \<longleftrightarrow>
     (if fst (snd e) = [] then listdir fs [] \<noteq> None
      else \<forall>sub \<in> set (fst (snd e)). listdir fs (join [] sub) \<noteq> None)"

subsection \<open>Filenames and stores that read back\<close>

text \<open>
  A filename that the loader finds again as the key of its line: no comma, no line break,
  no whitespace in front. A store that ends its last line. A reply of one line.
\<close>

definition clean_key :: "string \<Rightarrow> bool" where
  "clean_key fn \<longleftrightarrow>
     CHR '','' \<notin> set fn \<and> LF \<notin> set fn \<and> CR \<notin> set fn \<and>
     (case fn of [] \<Rightarrow> True | c # cs \<Rightarrow> \<not> is_space c)"

definition terminated :: "string \<Rightarrow> bool" where
  "terminated content \<longleftrightarrow> content = [] \<or> last content = LF"

definition single_line :: "string \<Rightarrow> bool" where
  "single_line reply \<longleftrightarrow> LF \<notin> set reply \<and> CR \<notin> set reply"

text \<open>
  The keys of the lines of a store, in their order; and a written line that is one line:
  no carriage return, and no newline but its last character.
\<close>

definition store_keys :: "string \<Rightarrow> string list" where
  "store_keys content = map first_field (file_lines (universal_newlines content))"

definition one_line :: "string \<Rightarrow> bool" where
  "one_line l \<longleftrightarrow> CR \<notin> set l \<and> LF \<notin> set (butlast l)"

text \<open>While the recorded filenames are clean, the ledger stays within the keys of the store.\<close>

definition store_keeps_ledger :: "state \<Rightarrow> state \<Rightarrow> bool" where
  "store_keeps_ledger s s' \<longleftrightarrow>
     (\<exists>tr. trace s' = trace s @ tr \<and>
        ((\<forall>f \<in> set (marks tr). clean_key f) \<longrightarrow>
         terminated (store s) \<and> ledger s \<subseteq> load_ledger (store s) \<longrightarrow>
         terminated (store s') \<and> ledger s' \<subseteq> load_ledger (store s')))"

text \<open>
  While the recorded filenames are clean and the written lines are one line each, the
  keys of the store are those it had, followed by the marked filenames.
\<close>

definition keys_follow :: "state \<Rightarrow> state \<Rightarrow> bool" where
  "keys_follow s s' \<longleftrightarrow>
     (\<exists>tr. trace s' = trace s @ tr \<and>
        ((\<forall>f \<in> set (marks tr). clean_key f) \<and> (\<forall>l \<in> set (writes tr). one_line l) \<longrightarrow>
         terminated (store s) \<longrightarrow>
         terminated (store s') \<and> store_keys (store s') = store_keys (store s) @ marks tr))"

text \<open>
  A directory is covered by a ledger when it can be listed and every entry the loop would
  submit is in the ledger; an entry of the walk is covered when the directories the loop
  scans for it are.
\<close>

definition covered :: "node \<Rightarrow> (string \<Rightarrow> bool) \<Rightarrow> string set \<Rightarrow> path \<Rightarrow> bool" where
  "covered fs filter_re L d \<longleftrightarrow>
     (case listdir fs d of
        None \<Rightarrow> False
      | Some names \<Rightarrow> \<forall>fn \<in> set names. filter_re fn \<and> isfile fs (join d fn) \<longrightarrow> fn \<in> L)"

definition entry_covered :: "node \<Rightarrow> (string \<Rightarrow> bool) \<Rightarrow> string set \<Rightarrow> walk_entry \<Rightarrow> bool" where
  "entry_covered fs filter_re L e \<longleftrightarrow>
     (if fst (snd e) = [] then covered fs filter_re L []
      else \<forall>sub \<in> set (fst (snd e)). covered fs filter_re L (join [] sub))"

subsection \<open>Example inputs\<close>

text \<open>Remote services.\<close>

definition always_prone :: client where
  "always_prone n p = Some ''prone''"

definition always_fails :: client where
  "always_fails n p = None"

definition fails_twice :: client where
  "fails_twice n p = (if n < 2 then None else Some ''prone'')"


text \<open>Directory trees, environments and states.\<close>

definition fresh_state :: state where
  "fresh_state = \<lparr>store = [], ledger = {}, calls = 0, trace = []\<rparr>"

definition flat_tree :: node where
  "flat_tree = Dir [(''002.jpg'', File True), (''001.jpg'', File True),
                    (''003.png'', File True), (''notes.txt'', File True)]"

definition flat_env :: env where
  "flat_env = \<lparr>prompt_file = Some ''Describe the position.'', responses_file = None,
               responses_appendable = True, image_directory = flat_tree\<rparr>"

definition flat_resumed_env :: env where
  "flat_resumed_env = \<lparr>prompt_file = Some ''Describe the position.'',
                       responses_file = Some (''002.jpg, supine'' @ [LF]),
                       responses_appendable = True, image_directory = flat_tree\<rparr>"

definition first_run_state :: state where
  "first_run_state =
     \<lparr>store = ''002.jpg, supine'' @ [LF] @ ''001.jpg, prone'' @ [LF] @ ''003.png, prone'' @ [LF],
      ledger = {''001.jpg'', ''002.jpg'', ''003.png''},
      calls = 2,
      trace = [Submit [''001.jpg''], Write (''001.jpg, prone'' @ [LF]), Flush, Mark ''001.jpg'',
               Skipping ''002.jpg'',
               Submit [''003.png''], Write (''003.png, prone'' @ [LF]), Flush, Mark ''003.png'']\<rparr>"

definition cut_env :: env where
  "cut_env = \<lparr>prompt_file = Some ''Describe the position.'', responses_file = Some ''000.jpg'',
              responses_appendable = True, image_directory = flat_tree\<rparr>"




definition name_taken_tree :: node where
  "name_taken_tree = Dir [(''1.jpg'', Dir []), (''2.jpg'', File True), (''3.jpg'', Special)]"

definition name_taken_state :: state where
  "name_taken_state = \<lparr>store = ''1.jpg, prone'' @ [LF], ledger = {''1.jpg''}, calls = 0, trace = []\<rparr>"

definition comma_tree :: node where
  "comma_tree = Dir [(''a,1.jpg'', File True)]"

definition comma_env :: env where
  "comma_env = \<lparr>prompt_file = Some ''Describe the position.'', responses_file = None,
                responses_appendable = True, image_directory = comma_tree\<rparr>"

definition mixed_tree :: node where
  "mixed_tree = Dir [(''1.jpg'', File True), (''A'', Dir [(''2.jpg'', File True)])]"

definition mixed_env :: env where
  "mixed_env = \<lparr>prompt_file = Some ''Describe the position.'', responses_file = None,
                responses_appendable = True, image_directory = mixed_tree\<rparr>"

definition broken_tree :: node where
  "broken_tree = Dir [(''1.jpg'', File True), (''2.jpg'', File False), (''3.jpg'', File True)]"

definition broken_env :: env where
  "broken_env = \<lparr>prompt_file = Some ''Describe the position.'', responses_file = None,
                 responses_appendable = True, image_directory = broken_tree\<rparr>"

section \<open>The retry loop\<close>

lemma submits_append: "submits (xs @ ys) = submits xs @ submits ys"
  by (induction xs rule: submits.induct) auto

lemma sleeps_append: "sleeps (xs @ ys) = sleeps xs @ sleeps ys"
  by (induction xs rule: sleeps.induct) auto

lemma retry_loop_fails_then_succeeds:
  "r + K < max_retries \<Longrightarrow> \<forall>i<K. cl (calls s + i) p = None \<Longrightarrow> cl (calls s + K) p = Some text \<Longrightarrow>
   retry_loop cl p fn r s =
     s\<lparr>store := store s @ response_csv_line fn text,
       ledger := insert fn (ledger s),
       calls := calls s + Suc K,
       trace := trace s @ concat (map (failed_attempt p) [Suc r ..< Suc (r + K)])
                @ [Submit p, Write (response_csv_line fn text), Flush, Mark fn]\<rparr>"
proof (induction K arbitrary: r s)
  case 0
  then show ?case by (subst retry_loop.simps) simp
next
  case (Suc K)
  let ?s1 = "s\<lparr>calls := Suc (calls s), trace := trace s @ failed_attempt p (Suc r)\<rparr>"
  have first: "cl (calls s) p = None" using Suc.prems(2) by force
  have step: "retry_loop cl p fn r s = retry_loop cl p fn (Suc r) ?s1"
    using Suc.prems(1) first by (subst retry_loop.simps) (simp add: failed_attempt_def)
  have later: "\<forall>i<K. cl (calls ?s1 + i) p = None"
  proof (intro allI impI)
    fix i assume "i < K"
    then have "cl (calls s + Suc i) p = None" using Suc.prems(2) by (simp del: add_Suc_right)
    then show "cl (calls ?s1 + i) p = None" by simp
  qed
  have last: "cl (calls ?s1 + K) p = Some text" using Suc.prems(3) by simp
  have bound: "Suc r + K < max_retries" using Suc.prems(1) by simp
  have range: "[Suc r ..< Suc (r + Suc K)] = Suc r # [Suc (Suc r) ..< Suc (Suc r + K)]"
    by (simp add: upt_conv_Cons)
  show ?case
    unfolding step Suc.IH [OF bound later last] range by simp
qed

lemma submits_failed: "submits (concat (map (failed_attempt p) ks)) = replicate (length ks) p"
  by (induction ks) (simp_all add: failed_attempt_def)

lemma sleeps_failed: "sleeps (concat (map (failed_attempt p) ks)) = map (\<lambda>k. delay_seconds * k) ks"
  by (induction ks) (simp_all add: failed_attempt_def)

lemma retry_loop_exhausts:
  "r < max_retries \<Longrightarrow> \<forall>i<max_retries - r. cl (calls s + i) p = None \<Longrightarrow>
   retry_loop cl p fn r s =
     s\<lparr>calls := calls s + (max_retries - r),
       trace := trace s @ concat (map (failed_attempt p) [Suc r ..< max_retries])
                @ [Submit p, ErrorReport p max_retries, GaveUp]\<rparr>"
proof (induction "max_retries - r" arbitrary: r s)
  case 0
  then show ?case by simp
next
  case (Suc n)
  have first: "cl (calls s) p = None" using Suc.prems(2) Suc.hyps(2) by force
  show ?case
  proof (cases "Suc r < max_retries")
    case False
    then have r: "Suc r = max_retries" using Suc.prems(1) by simp
    have stop: "retry_loop cl p fn (Suc r) t = t" for t
      using r by (subst retry_loop.simps) simp
    have one: "max_retries - r = Suc 0" and none: "[Suc r ..< max_retries] = []"
      using r by simp_all
    have "retry_loop cl p fn r s =
            s\<lparr>calls := Suc (calls s),
              trace := trace s @ [Submit p, ErrorReport p (Suc r), GaveUp]\<rparr>"
      using first False Suc.prems(1) by (subst retry_loop.simps) (simp add: stop)
    then show ?thesis
      unfolding one none by (simp add: r)
  next
    case True
    let ?s1 = "s\<lparr>calls := Suc (calls s), trace := trace s @ failed_attempt p (Suc r)\<rparr>"
    have step: "retry_loop cl p fn r s = retry_loop cl p fn (Suc r) ?s1"
      using Suc.prems(1) first True by (subst retry_loop.simps) (simp add: failed_attempt_def)
    have n: "n = max_retries - Suc r" using Suc.hyps(2) by simp
    have later: "\<forall>i<max_retries - Suc r. cl (calls ?s1 + i) p = None"
    proof (intro allI impI)
      fix i assume "i < max_retries - Suc r"
      then have "Suc i < max_retries - r" by simp
      then have "cl (calls s + Suc i) p = None" using Suc.prems(2) by blast
      then show "cl (calls ?s1 + i) p = None" by simp
    qed
    have range: "[Suc r ..< max_retries] = Suc r # [Suc (Suc r) ..< max_retries]"
      using True by (simp add: upt_conv_Cons)
    have cnt: "Suc (calls s) + (max_retries - Suc r) = calls s + (max_retries - r)"
      using True by simp
    show ?thesis
      unfolding step Suc.hyps(1) [OF n True later] range using cnt by simp
  qed
qed


lemma upt_delay: "map (\<lambda>k. delay_seconds * k) ks = ks"
  by (simp add: delay_seconds_def)

text \<open>
  C3. A remote call that fails exactly K times and then succeeds, with K below
  \<^verbatim>\<open>max_retries\<close> = 4 and \<^verbatim>\<open>delay_seconds\<close> = 1: the loop makes K + 1 calls, sleeps
  1, 2, ..., K seconds, one sleep after each failed call, and ends with the write, the
  flush and the mark of the successful call.
\<close>

theorem retry_success_path:
  assumes "K < max_retries"
    and "\<forall>i<K. cl (calls s + i) p = None"
    and "cl (calls s + K) p = Some text"
  shows "max_retries = 4 \<and> delay_seconds = 1 \<and>
    retry_loop cl p fn 0 s =
      s\<lparr>store := store s @ response_csv_line fn text,
        ledger := insert fn (ledger s),
        calls := calls s + (K + 1),
        trace := trace s @ concat (map (failed_attempt p) [1 ..< K + 1])
                 @ [Submit p, Write (response_csv_line fn text), Flush, Mark fn]\<rparr> \<and>
    submits (new_events s (retry_loop cl p fn 0 s)) = replicate (K + 1) p \<and>
    sleeps (new_events s (retry_loop cl p fn 0 s)) = [1 ..< K + 1]"
proof -
  have eq: "retry_loop cl p fn 0 s =
      s\<lparr>store := store s @ response_csv_line fn text,
        ledger := insert fn (ledger s),
        calls := calls s + (K + 1),
        trace := trace s @ concat (map (failed_attempt p) [1 ..< K + 1])
                 @ [Submit p, Write (response_csv_line fn text), Flush, Mark fn]\<rparr>"
    using retry_loop_fails_then_succeeds [of 0 K cl s p "text" fn] assms by simp
  have "submits (new_events s (retry_loop cl p fn 0 s)) = replicate (K + 1) p"
    unfolding eq new_events_def
    by (simp add: submits_append submits_failed replicate_append_same)
  moreover have "sleeps (new_events s (retry_loop cl p fn 0 s)) = [1 ..< K + 1]"
    unfolding eq new_events_def
    by (simp add: sleeps_append sleeps_failed upt_delay del: upt_Suc)
  ultimately show ?thesis
    using eq by (simp add: max_retries_def delay_seconds_def)
qed

text \<open>The theorem at K = 2: three calls, sleeps of 1 and 2 seconds.\<close>

theorem retry_success_path_witness:
  "(2::nat) < max_retries \<and>
   fails_twice (calls fresh_state + 0) [''001.jpg''] = None \<and>
   fails_twice (calls fresh_state + 1) [''001.jpg''] = None \<and>
   fails_twice (calls fresh_state + 2) [''001.jpg''] = Some ''prone'' \<and>
   store (retry_loop fails_twice [''001.jpg''] ''001.jpg'' 0 fresh_state) = ''001.jpg, prone'' @ [LF] \<and>
   submits (new_events fresh_state (retry_loop fails_twice [''001.jpg''] ''001.jpg'' 0 fresh_state))
     = [[''001.jpg''], [''001.jpg''], [''001.jpg'']] \<and>
   sleeps (new_events fresh_state (retry_loop fails_twice [''001.jpg''] ''001.jpg'' 0 fresh_state))
     = [1, 2]"
proof -
  have h1: "(2::nat) < max_retries" by (simp add: max_retries_def)
  have h2: "\<forall>i<2. fails_twice (calls fresh_state + i) [''001.jpg''] = None"
    by (simp add: fails_twice_def fresh_state_def)
  have h3: "fails_twice (calls fresh_state + 2) [''001.jpg''] = Some ''prone''"
    by (simp add: fails_twice_def fresh_state_def)
  note c = retry_success_path [of 2 fails_twice fresh_state "[''001.jpg'']" "''prone''" "''001.jpg''",
      OF h1 h2 h3]
  from c have eq: "retry_loop fails_twice [''001.jpg''] ''001.jpg'' 0 fresh_state =
      fresh_state\<lparr>store := store fresh_state @ response_csv_line ''001.jpg'' ''prone'',
        ledger := insert ''001.jpg'' (ledger fresh_state),
        calls := calls fresh_state + (2 + 1),
        trace := trace fresh_state @ concat (map (failed_attempt [''001.jpg'']) [1 ..< 2 + 1])
                 @ [Submit [''001.jpg''], Write (response_csv_line ''001.jpg'' ''prone''), Flush,
                    Mark ''001.jpg'']\<rparr>"
    by blast
  from c have a: "submits (new_events fresh_state
        (retry_loop fails_twice [''001.jpg''] ''001.jpg'' 0 fresh_state)) = replicate (2 + 1) [''001.jpg'']"
    by blast
  from c have b: "sleeps (new_events fresh_state
        (retry_loop fails_twice [''001.jpg''] ''001.jpg'' 0 fresh_state)) = [1 ..< 2 + 1]"
    by blast
  have st: "store (retry_loop fails_twice [''001.jpg''] ''001.jpg'' 0 fresh_state) = ''001.jpg, prone'' @ [LF]"
    unfolding eq by (simp add: fresh_state_def response_csv_line_def)
  have up: "[1 ..< 2 + 1] = [1, 2::nat]" by (simp add: upt_rec)
  have rp: "replicate (2 + 1) [''001.jpg''] = [[''001.jpg''], [''001.jpg''], [''001.jpg'']]"
    by (simp add: numeral_3_eq_3)
  have h0: "fails_twice (calls fresh_state + 0) [''001.jpg''] = None"
    and h0': "fails_twice (calls fresh_state + 1) [''001.jpg''] = None"
    by (simp_all add: fails_twice_def fresh_state_def)
  show ?thesis
    unfolding a b st up rp using h1 h0 h0' h3 by blast
qed

text \<open>
  C4. A remote call that fails \<^verbatim>\<open>max_retries\<close> = 4 times in a row: the loop makes exactly
  four calls and gives up; it writes no line, marks nothing, and leaves the store and the
  ledger as they were.
\<close>

theorem retry_exhaustion:
  assumes "\<forall>i<max_retries. cl (calls s + i) p = None"
  shows "max_retries = 4 \<and>
    retry_loop cl p fn 0 s =
      s\<lparr>calls := calls s + 4,
        trace := trace s @
          [Submit p, ErrorReport p 1, Sleep 1, Submit p, ErrorReport p 2, Sleep 2,
           Submit p, ErrorReport p 3, Sleep 3, Submit p, ErrorReport p 4, GaveUp]\<rparr> \<and>
    length (submits (new_events s (retry_loop cl p fn 0 s))) = 4 \<and>
    writes (new_events s (retry_loop cl p fn 0 s)) = [] \<and>
    marks (new_events s (retry_loop cl p fn 0 s)) = [] \<and>
    store (retry_loop cl p fn 0 s) = store s \<and>
    ledger (retry_loop cl p fn 0 s) = ledger s"
proof -
  have up: "[Suc 0 ..< max_retries] = [1, 2, 3]"
    by (simp add: max_retries_def upt_rec)
  have eq: "retry_loop cl p fn 0 s =
      s\<lparr>calls := calls s + 4,
        trace := trace s @
          [Submit p, ErrorReport p 1, Sleep 1, Submit p, ErrorReport p 2, Sleep 2,
           Submit p, ErrorReport p 3, Sleep 3, Submit p, ErrorReport p 4, GaveUp]\<rparr>"
    using retry_loop_exhausts [of 0 cl s p fn] assms
    by (simp add: up failed_attempt_def delay_seconds_def) (simp add: max_retries_def)
  show ?thesis
    unfolding eq new_events_def by (simp add: max_retries_def)
qed

text \<open>The theorem for a service that never answers, from an empty state.\<close>

theorem retry_exhaustion_witness:
  "always_fails (calls fresh_state + 0) [''001.jpg''] = None \<and>
   always_fails (calls fresh_state + 1) [''001.jpg''] = None \<and>
   always_fails (calls fresh_state + 2) [''001.jpg''] = None \<and>
   always_fails (calls fresh_state + 3) [''001.jpg''] = None \<and>
   retry_loop always_fails [''001.jpg''] ''001.jpg'' 0 fresh_state =
     \<lparr>store = [], ledger = {}, calls = 4,
      trace = [Submit [''001.jpg''], ErrorReport [''001.jpg''] 1, Sleep 1,
               Submit [''001.jpg''], ErrorReport [''001.jpg''] 2, Sleep 2,
               Submit [''001.jpg''], ErrorReport [''001.jpg''] 3, Sleep 3,
               Submit [''001.jpg''], ErrorReport [''001.jpg''] 4, GaveUp]\<rparr>"
proof -
  have h: "\<forall>i<max_retries. always_fails (calls fresh_state + i) [''001.jpg''] = None"
    by (simp add: always_fails_def)
  show ?thesis
    using h retry_exhaustion [of always_fails fresh_state "[''001.jpg'']" "''001.jpg''"]
    by (simp add: fresh_state_def always_fails_def)
qed

section \<open>Case analysis of the retry loop and lifting over the loops\<close>

lemma retry_loop_cases:
  obtains (success) K reply where "K < max_retries"
      "retry_loop cl p fn 0 s =
         s\<lparr>store := store s @ response_csv_line fn reply,
           ledger := insert fn (ledger s),
           calls := calls s + Suc K,
           trace := trace s @ success_events p fn K reply\<rparr>"
  | (exhausted)
      "retry_loop cl p fn 0 s =
         s\<lparr>calls := calls s + max_retries, trace := trace s @ exhausted_events p\<rparr>"
proof (cases "\<exists>i<max_retries. cl (calls s + i) p \<noteq> None")
  case True
  define K where "K = (LEAST i. cl (calls s + i) p \<noteq> None)"
  from True obtain i where i: "i < max_retries" "cl (calls s + i) p \<noteq> None" by blast
  have K1: "cl (calls s + K) p \<noteq> None"
    unfolding K_def using i(2) by (rule LeastI)
  have K2: "K \<le> i" unfolding K_def using i(2) by (rule Least_le)
  have K3: "\<forall>j<K. cl (calls s + j) p = None"
    unfolding K_def using not_less_Least by blast
  from K1 obtain reply where r: "cl (calls s + K) p = Some reply" by blast
  have "K < max_retries" using K2 i(1) by simp
  moreover have "retry_loop cl p fn 0 s =
         s\<lparr>store := store s @ response_csv_line fn reply,
           ledger := insert fn (ledger s),
           calls := calls s + Suc K,
           trace := trace s @ success_events p fn K reply\<rparr>"
    using retry_loop_fails_then_succeeds [of 0 K cl s p reply fn] K3 r \<open>K < max_retries\<close>
    by (simp add: success_events_def)
  ultimately show ?thesis by (rule success)
next
  case False
  then have "\<forall>i<max_retries - 0. cl (calls s + i) p = None" by simp
  moreover have "0 < max_retries" by (simp add: max_retries_def)
  ultimately have "retry_loop cl p fn 0 s =
         s\<lparr>calls := calls s + max_retries, trace := trace s @ exhausted_events p\<rparr>"
    using retry_loop_exhausts [of 0 cl s p fn] by (simp add: exhausted_events_def)
  then show ?thesis by (rule exhausted)
qed

text \<open>Lifting a relation between states from the steps of a run to the run.\<close>

lemma process_entries_lift:
  assumes refl: "\<And>s. R s s"
    and trans: "\<And>a b c. R a b \<Longrightarrow> R b c \<Longrightarrow> R a c"
    and skip: "\<And>s fn. filter_re fn \<Longrightarrow> fn \<in> ledger s \<Longrightarrow>
                 R s (s\<lparr>trace := trace s @ [Skipping fn]\<rparr>)"
    and item: "\<And>s fn. filter_re fn \<Longrightarrow> fn \<notin> ledger s \<Longrightarrow> isfile fs (join d fn) \<Longrightarrow>
                 image_open fs (join d fn) \<Longrightarrow> R s (retry_loop cl (join d fn) fn 0 s)"
  shows "R s (snd (process_entries fs filter_re cl d names s))"
proof (induction names arbitrary: s)
  case Nil
  show ?case by (simp add: refl)
next
  case (Cons fn rest)
  show ?case
  proof (cases "filter_re fn")
    case False
    then show ?thesis using Cons.IH [of s] by simp
  next
    case m: True
    show ?thesis
    proof (cases "fn \<in> ledger s")
      case True
      have "R s (s\<lparr>trace := trace s @ [Skipping fn]\<rparr>)" using m True by (rule skip)
      then show ?thesis
        using m True Cons.IH [of "s\<lparr>trace := trace s @ [Skipping fn]\<rparr>"] trans by auto
    next
      case l: False
      show ?thesis
      proof (cases "isfile fs (join d fn) \<and> image_open fs (join d fn)")
        case True
        then have "R s (retry_loop cl (join d fn) fn 0 s)" using m l item by blast
        then show ?thesis
          using m l True Cons.IH [of "retry_loop cl (join d fn) fn 0 s"] trans by auto
      next
        case False
        then show ?thesis using m l Cons.IH [of s] refl by auto
      qed
    qed
  qed
qed

lemma send_lift:
  assumes refl: "\<And>s. R s s"
    and trans: "\<And>a b c. R a b \<Longrightarrow> R b c \<Longrightarrow> R a c"
    and skip: "\<And>s fn. filter_re fn \<Longrightarrow> fn \<in> ledger s \<Longrightarrow>
                 R s (s\<lparr>trace := trace s @ [Skipping fn]\<rparr>)"
    and item: "\<And>s d fn. filter_re fn \<Longrightarrow> fn \<notin> ledger s \<Longrightarrow> isfile fs (join d fn) \<Longrightarrow>
                 image_open fs (join d fn) \<Longrightarrow> R s (retry_loop cl (join d fn) fn 0 s)"
  shows "R s (snd (send_filtered_image_prompts_for_directory fs filter_re cl d s))"
proof (cases "listdir fs d")
  case None
  then show ?thesis by (simp add: send_filtered_image_prompts_for_directory_def refl)
next
  case (Some names)
  have "R s (snd (process_entries fs filter_re cl d (sort names) s))"
    by (rule process_entries_lift [of R filter_re fs d cl, OF refl trans skip item])
  then show ?thesis using Some by (simp add: send_filtered_image_prompts_for_directory_def)
qed

lemma subdirs_loop_lift:
  assumes refl: "\<And>s. R s s"
    and trans: "\<And>a b c. R a b \<Longrightarrow> R b c \<Longrightarrow> R a c"
    and skip: "\<And>s fn. filter_re fn \<Longrightarrow> fn \<in> ledger s \<Longrightarrow>
                 R s (s\<lparr>trace := trace s @ [Skipping fn]\<rparr>)"
    and item: "\<And>s d fn. filter_re fn \<Longrightarrow> fn \<notin> ledger s \<Longrightarrow> isfile fs (join d fn) \<Longrightarrow>
                 image_open fs (join d fn) \<Longrightarrow> R s (retry_loop cl (join d fn) fn 0 s)"
  shows "R s (snd (subdirs_loop fs filter_re cl subs s))"
proof (induction subs arbitrary: s)
  case Nil
  show ?case by (simp add: refl)
next
  case (Cons sub rest)
  have one: "R s (snd (send_filtered_image_prompts_for_directory fs filter_re cl (join [] sub) s))"
    by (rule send_lift [of R filter_re fs cl, OF refl trans skip item])
  show ?case
  proof (cases "send_filtered_image_prompts_for_directory fs filter_re cl (join [] sub) s")
    case (Pair r s')
    then show ?thesis
      using one Cons.IH [of s'] trans by (cases r) auto
  qed
qed

lemma walk_loop_lift:
  assumes refl: "\<And>s. R s s"
    and trans: "\<And>a b c. R a b \<Longrightarrow> R b c \<Longrightarrow> R a c"
    and skip: "\<And>s fn. filter_re fn \<Longrightarrow> fn \<in> ledger s \<Longrightarrow>
                 R s (s\<lparr>trace := trace s @ [Skipping fn]\<rparr>)"
    and item: "\<And>s d fn. filter_re fn \<Longrightarrow> fn \<notin> ledger s \<Longrightarrow> isfile fs (join d fn) \<Longrightarrow>
                 image_open fs (join d fn) \<Longrightarrow> R s (retry_loop cl (join d fn) fn 0 s)"
  shows "R s (snd (walk_loop fs filter_re cl entries s))"
proof (induction entries arbitrary: s)
  case Nil
  show ?case by (simp add: refl)
next
  case (Cons entry rest)
  obtain dirpath dirnames filenames where entry: "entry = (dirpath, dirnames, filenames)"
    by (cases entry) auto
  define body where "body =
    (if dirnames = [] then send_filtered_image_prompts_for_directory fs filter_re cl [] s
     else subdirs_loop fs filter_re cl (sort dirnames) s)"
  have one: "R s (snd body)"
    unfolding body_def
    using send_lift [of R filter_re fs cl s "[]", OF refl trans skip item]
      subdirs_loop_lift [of R filter_re fs cl s "sort dirnames", OF refl trans skip item]
    by simp
  show ?case
  proof (cases body)
    case (Pair r s')
    then show ?thesis
      using one Cons.IH [of s'] trans entry body_def by (cases r) auto
  qed
qed

lemma main_lift:
  assumes refl: "\<And>s. R s s"
    and trans: "\<And>a b c. R a b \<Longrightarrow> R b c \<Longrightarrow> R a c"
    and skip: "\<And>s fn. filter_re fn \<Longrightarrow> fn \<in> ledger s \<Longrightarrow>
                 R s (s\<lparr>trace := trace s @ [Skipping fn]\<rparr>)"
    and item: "\<And>s d fn. filter_re fn \<Longrightarrow> fn \<notin> ledger s \<Longrightarrow>
                 isfile (image_directory ev) (join d fn) \<Longrightarrow>
                 image_open (image_directory ev) (join d fn) \<Longrightarrow>
                 R s (retry_loop cl (join d fn) fn 0 s)"
  shows "R (initial_state ev) (snd (main ev cl filter_re))"
proof -
  have "R (initial_state ev)
          (snd (walk_loop (image_directory ev) filter_re cl (walk [] (image_directory ev))
                 (initial_state ev)))"
    by (rule walk_loop_lift [of R filter_re "image_directory ev" cl, OF refl trans skip item])
  then show ?thesis
    by (simp add: main_def refl split: option.split)
qed

section \<open>The store and the ledger follow the trace\<close>

lemma writes_append: "writes (xs @ ys) = writes xs @ writes ys"
  by (induction xs rule: writes.induct) auto

lemma marks_append: "marks (xs @ ys) = marks xs @ marks ys"
  by (induction xs rule: marks.induct) auto

lemma writes_failed: "writes (concat (map (failed_attempt p) ks)) = []"
  by (induction ks) (simp_all add: failed_attempt_def)

lemma marks_failed: "marks (concat (map (failed_attempt p) ks)) = []"
  by (induction ks) (simp_all add: failed_attempt_def)

lemma success_events_proj:
  "writes (success_events p fn K reply) = [response_csv_line fn reply]"
  "marks (success_events p fn K reply) = [fn]"
  "submits (success_events p fn K reply) = replicate (Suc K) p"
  by (simp_all add: success_events_def writes_append writes_failed marks_append marks_failed
      submits_append submits_failed replicate_append_same del: upt_Suc)

lemma exhausted_events_proj:
  "writes (exhausted_events p) = []"
  "marks (exhausted_events p) = []"
  "submits (exhausted_events p) = replicate max_retries p"
proof -
  have "replicate max_retries p = replicate (Suc (max_retries - Suc 0)) p"
    by (simp add: max_retries_def)
  also have "\<dots> = p # replicate (max_retries - Suc 0) p" by simp
  finally show "submits (exhausted_events p) = replicate max_retries p"
    by (simp add: exhausted_events_def submits_append submits_failed replicate_append_same)
qed (simp_all add: exhausted_events_def writes_append writes_failed marks_append marks_failed)

lemma accounted_refl: "accounted s s"
  by (simp add: accounted_def)

lemma accounted_trans: "accounted a b \<Longrightarrow> accounted b c \<Longrightarrow> accounted a c"
  unfolding accounted_def
  by (elim exE conjE, rule_tac x = "tr @ tra" in exI)
     (simp add: writes_append marks_append submits_append Un_assoc)

lemma accounted_skip: "accounted s (s\<lparr>trace := trace s @ [Skipping fn]\<rparr>)"
  by (simp add: accounted_def)

lemma accounted_item: "accounted s (retry_loop cl p fn 0 s)"
proof (cases rule: retry_loop_cases [of cl p fn s])
  case (success K reply)
  show ?thesis
    unfolding accounted_def success(2)
    by (rule exI [of _ "success_events p fn K reply"]) (simp add: success_events_proj)
next
  case exhausted
  show ?thesis
    unfolding accounted_def exhausted
    by (rule exI [of _ "exhausted_events p"]) (simp add: exhausted_events_proj)
qed

lemma main_accounted: "accounted (initial_state ev) (snd (main ev cl filter_re))"
  by (rule main_lift [of accounted]) (auto intro: accounted_refl accounted_trans accounted_skip accounted_item)

lemma accounted_trace: "accounted s s' \<Longrightarrow> set (trace s) \<subseteq> set (trace s')"
  by (auto simp: accounted_def)

lemma accounted_ledger: "accounted s s' \<Longrightarrow> ledger s \<subseteq> ledger s'"
  by (auto simp: accounted_def)

lemma process_entries_accounted: "accounted s (snd (process_entries fs filter_re cl d names s))"
  by (rule process_entries_lift [of accounted])
     (auto intro: accounted_refl accounted_trans accounted_skip accounted_item)

lemma send_accounted:
  "accounted s (snd (send_filtered_image_prompts_for_directory fs filter_re cl d s))"
  by (rule send_lift [of accounted])
     (auto intro: accounted_refl accounted_trans accounted_skip accounted_item)

lemma subdirs_loop_accounted: "accounted s (snd (subdirs_loop fs filter_re cl subs s))"
  by (rule subdirs_loop_lift [of accounted])
     (auto intro: accounted_refl accounted_trans accounted_skip accounted_item)

lemma walk_loop_accounted: "accounted s (snd (walk_loop fs filter_re cl entries s))"
  by (rule walk_loop_lift [of accounted])
     (auto intro: accounted_refl accounted_trans accounted_skip accounted_item)

lemma trace_initial: "trace (initial_state ev) = []"
  by (simp add: initial_state_def)

lemma ledger_retry_loop_any:
  "ledger (retry_loop cl p fn r s) = ledger s \<or> ledger (retry_loop cl p fn r s) = insert fn (ledger s)"
proof (induction cl p fn r s rule: retry_loop.induct)
  case (1 cl file_path img_filename retry_count s)
  show ?case
  proof (cases "retry_count < max_retries")
    case False
    then show ?thesis by (subst retry_loop.simps, subst (2) retry_loop.simps) simp
  next
    case True
    show ?thesis
    proof (cases "cl (calls s) file_path")
      case (Some reply)
      then show ?thesis using True by (subst retry_loop.simps, subst (2) retry_loop.simps) simp
    next
      case None
      then show ?thesis
        using True "1.IH" [OF True None]
        by (subst retry_loop.simps, subst (2) retry_loop.simps) simp
    qed
  qed
qed

text \<open>
  C9. The ledger starts as the set loaded from the store (empty when there is none) and
  ends as that set together with the filenames marked during the run, so it contains the
  loaded set; the retry loop, the only place that changes it, leaves it as it is or adds
  the one filename of its item. The store grows by the written lines and by nothing else:
  the ledger is never written out.
\<close>

theorem ledger_only_grows:
  "ledger (initial_state ev) =
     (case responses_file ev of None \<Rightarrow> {} | Some content \<Rightarrow> load_ledger content) \<and>
   ledger (snd (main ev cl filter_re)) =
     ledger (initial_state ev) \<union> set (marks (trace (snd (main ev cl filter_re)))) \<and>
   ledger (initial_state ev) \<subseteq> ledger (snd (main ev cl filter_re)) \<and>
   store (snd (main ev cl filter_re)) =
     store (initial_state ev) @ concat (writes (trace (snd (main ev cl filter_re)))) \<and>
   (ledger (retry_loop cl p fn r s) = ledger s \<or>
    ledger (retry_loop cl p fn r s) = insert fn (ledger s))"
proof -
  have "accounted (initial_state ev) (snd (main ev cl filter_re))"
    by (rule main_accounted)
  then have "ledger (snd (main ev cl filter_re)) =
       ledger (initial_state ev) \<union> set (marks (trace (snd (main ev cl filter_re))))"
    and "store (snd (main ev cl filter_re)) =
       store (initial_state ev) @ concat (writes (trace (snd (main ev cl filter_re))))"
    by (auto simp: accounted_def trace_initial)
  moreover have "ledger (initial_state ev) =
     (case responses_file ev of None \<Rightarrow> {} | Some content \<Rightarrow> load_ledger content)"
    by (simp add: initial_state_def)
  ultimately show ?thesis
    using ledger_retry_loop_any [of cl p fn r s] by blast
qed

subsection \<open>Write, flush, mark\<close>

lemma write_before_mark_append:
  assumes a: "write_before_mark a" and b: "write_before_mark b"
  shows "write_before_mark (a @ b)"
  unfolding write_before_mark_def
proof (intro allI impI)
  fix i f
  assume i: "i < length (a @ b)" and m: "(a @ b) ! i = Mark f"
  show "2 \<le> i \<and> (a @ b) ! (i - 1) = Flush \<and>
        (\<exists>reply. (a @ b) ! (i - 2) = Write (response_csv_line f reply))"
  proof (cases "i < length a")
    case True
    then have "a ! i = Mark f" using m by (simp add: nth_append)
    with a True have "2 \<le> i \<and> a ! (i - 1) = Flush \<and>
        (\<exists>reply. a ! (i - 2) = Write (response_csv_line f reply))"
      unfolding write_before_mark_def by blast
    moreover have "i - 1 < length a" "i - 2 < length a" using True by simp_all
    ultimately show ?thesis by (simp add: nth_append)
  next
    case False
    define j where "j = i - length a"
    have j: "j < length b" "b ! j = Mark f" "i = length a + j"
      using False i m by (simp_all add: j_def nth_append)
    with b have *: "2 \<le> j \<and> b ! (j - 1) = Flush \<and>
        (\<exists>reply. b ! (j - 2) = Write (response_csv_line f reply))"
      unfolding write_before_mark_def by blast
    have "i - 1 = length a + (j - 1)" "i - 2 = length a + (j - 2)"
      using * j(3) by simp_all
    then have "(a @ b) ! (i - 1) = b ! (j - 1)" "(a @ b) ! (i - 2) = b ! (j - 2)"
      by (simp_all only: nth_append_length_plus)
    then show ?thesis using * j(3) by simp
  qed
qed

lemma write_before_mark_no_mark: "marks tr = [] \<Longrightarrow> write_before_mark tr"
proof -
  have "Mark f \<in> set tr \<Longrightarrow> marks tr \<noteq> []" for f
    by (induction tr rule: marks.induct) auto
  then show "marks tr = [] \<Longrightarrow> write_before_mark tr"
    unfolding write_before_mark_def by (metis nth_mem)
qed

lemma write_before_mark_success: "write_before_mark (success_events p fn K reply)"
proof -
  have "write_before_mark [Submit p, Write (response_csv_line fn reply), Flush, Mark fn]"
    unfolding write_before_mark_def
  proof (intro allI impI)
    fix i f
    assume "i < length [Submit p, Write (response_csv_line fn reply), Flush, Mark fn]"
      and m: "[Submit p, Write (response_csv_line fn reply), Flush, Mark fn] ! i = Mark f"
    then consider "i = 0" | "i = 1" | "i = 2" | "i = 3" by fastforce
    then show "2 \<le> i \<and> [Submit p, Write (response_csv_line fn reply), Flush, Mark fn] ! (i - 1) = Flush \<and>
        (\<exists>r. [Submit p, Write (response_csv_line fn reply), Flush, Mark fn] ! (i - 2)
               = Write (response_csv_line f r))"
      using m by cases (auto simp: numeral_3_eq_3 numeral_2_eq_2)
  qed
  moreover have "write_before_mark (concat (map (failed_attempt p) [1 ..< Suc K]))"
    by (rule write_before_mark_no_mark) (rule marks_failed)
  ultimately show ?thesis
    unfolding success_events_def by (rule write_before_mark_append [rotated])
qed

lemma write_before_mark_exhausted: "write_before_mark (exhausted_events p)"
  by (rule write_before_mark_no_mark) (rule exhausted_events_proj)

lemma extends_well_refl: "extends_well s s"
  by (simp add: extends_well_def write_before_mark_def)

lemma extends_well_trans: "extends_well a b \<Longrightarrow> extends_well b c \<Longrightarrow> extends_well a c"
  unfolding extends_well_def
  by (elim exE conjE, rule_tac x = "tr @ tra" in exI) (simp add: write_before_mark_append)

lemma extends_well_skip: "extends_well s (s\<lparr>trace := trace s @ [Skipping fn]\<rparr>)"
  by (simp add: extends_well_def write_before_mark_no_mark)

lemma extends_well_item: "extends_well s (retry_loop cl p fn 0 s)"
proof (cases rule: retry_loop_cases [of cl p fn s])
  case (success K reply)
  show ?thesis
    unfolding extends_well_def success(2)
    by (rule exI [of _ "success_events p fn K reply"]) (simp add: write_before_mark_success)
next
  case exhausted
  show ?thesis
    unfolding extends_well_def exhausted
    by (rule exI [of _ "exhausted_events p"]) (simp add: write_before_mark_exhausted)
qed

lemma main_write_before_mark: "write_before_mark (trace (snd (main ev cl filter_re)))"
proof -
  have "extends_well (initial_state ev) (snd (main ev cl filter_re))"
    by (rule main_lift [of extends_well])
       (auto intro: extends_well_refl extends_well_trans extends_well_skip extends_well_item)
  then show ?thesis by (simp add: extends_well_def trace_initial)
qed

lemma every_write_marked_append:
  assumes a: "every_write_marked a" and b: "every_write_marked b"
  shows "every_write_marked (a @ b)"
  unfolding every_write_marked_def
proof (intro allI impI)
  fix i l
  assume i: "i < length (a @ b)" and w: "(a @ b) ! i = Write l"
  show "i + 2 < length (a @ b) \<and>
        (\<exists>f reply. l = response_csv_line f reply \<and> (a @ b) ! (i + 2) = Mark f)"
  proof (cases "i < length a")
    case True
    then have "a ! i = Write l" using w by (simp add: nth_append)
    with a True have *: "i + 2 < length a \<and>
        (\<exists>f reply. l = response_csv_line f reply \<and> a ! (i + 2) = Mark f)"
      unfolding every_write_marked_def by blast
    then show ?thesis by (simp add: nth_append)
  next
    case False
    define j where "j = i - length a"
    have j: "j < length b" "b ! j = Write l" "i = length a + j"
      using False i w by (simp_all add: j_def nth_append)
    with b have *: "j + 2 < length b \<and>
        (\<exists>f reply. l = response_csv_line f reply \<and> b ! (j + 2) = Mark f)"
      unfolding every_write_marked_def by blast
    have "i + 2 = length a + (j + 2)" using j(3) by simp
    then have "(a @ b) ! (i + 2) = b ! (j + 2)" by (simp only: nth_append_length_plus)
    then show ?thesis using * j(3) by simp
  qed
qed

lemma every_write_marked_no_write: "writes tr = [] \<Longrightarrow> every_write_marked tr"
proof -
  have "Write l \<in> set tr \<Longrightarrow> writes tr \<noteq> []" for l
    by (induction tr rule: writes.induct) auto
  then show "writes tr = [] \<Longrightarrow> every_write_marked tr"
    unfolding every_write_marked_def by (metis nth_mem)
qed

lemma every_write_marked_success: "every_write_marked (success_events p fn K reply)"
proof -
  have "every_write_marked [Submit p, Write (response_csv_line fn reply), Flush, Mark fn]"
    unfolding every_write_marked_def
  proof (intro allI impI)
    fix i l
    assume "i < length [Submit p, Write (response_csv_line fn reply), Flush, Mark fn]"
      and w: "[Submit p, Write (response_csv_line fn reply), Flush, Mark fn] ! i = Write l"
    then consider "i = 0" | "i = 1" | "i = 2" | "i = 3" by fastforce
    then show "i + 2 < length [Submit p, Write (response_csv_line fn reply), Flush, Mark fn] \<and>
        (\<exists>f r. l = response_csv_line f r \<and>
           [Submit p, Write (response_csv_line fn reply), Flush, Mark fn] ! (i + 2) = Mark f)"
      using w by cases (auto simp: numeral_3_eq_3 numeral_2_eq_2)
  qed
  moreover have "every_write_marked (concat (map (failed_attempt p) [1 ..< Suc K]))"
    by (rule every_write_marked_no_write) (rule writes_failed)
  ultimately show ?thesis
    unfolding success_events_def by (rule every_write_marked_append [rotated])
qed

lemma writes_marked_refl: "writes_marked s s"
  by (simp add: writes_marked_def every_write_marked_def)

lemma writes_marked_trans: "writes_marked a b \<Longrightarrow> writes_marked b c \<Longrightarrow> writes_marked a c"
  unfolding writes_marked_def
  by (elim exE conjE, rule_tac x = "tr @ tra" in exI) (simp add: every_write_marked_append)

lemma writes_marked_skip: "writes_marked s (s\<lparr>trace := trace s @ [Skipping fn]\<rparr>)"
  by (simp add: writes_marked_def every_write_marked_no_write)

lemma writes_marked_item: "writes_marked s (retry_loop cl p fn 0 s)"
proof (cases rule: retry_loop_cases [of cl p fn s])
  case (success K reply)
  show ?thesis
    unfolding writes_marked_def success(2)
    by (rule exI [of _ "success_events p fn K reply"]) (simp add: every_write_marked_success)
next
  case exhausted
  show ?thesis
    unfolding writes_marked_def exhausted
    by (rule exI [of _ "exhausted_events p"])
       (simp add: every_write_marked_no_write exhausted_events_proj)
qed

lemma main_every_write_marked: "every_write_marked (trace (snd (main ev cl filter_re)))"
proof -
  have "writes_marked (initial_state ev) (snd (main ev cl filter_re))"
    by (rule main_lift [of writes_marked])
       (auto intro: writes_marked_refl writes_marked_trans writes_marked_skip writes_marked_item)
  then show ?thesis by (simp add: writes_marked_def trace_initial)
qed

text \<open>
  C2. In every run, a mark of a filename in the ledger comes directly after the flush,
  which comes directly after the write of that filename's result line: no mark stands
  in the trace without its line written and flushed just before.
\<close>

theorem write_before_mark_ordering:
  assumes "i < length (trace (snd (main ev cl filter_re)))"
    and "trace (snd (main ev cl filter_re)) ! i = Mark f"
  shows "2 \<le> i \<and> trace (snd (main ev cl filter_re)) ! (i - 1) = Flush \<and>
         (\<exists>reply. trace (snd (main ev cl filter_re)) ! (i - 2) = Write (response_csv_line f reply))"
  using main_write_before_mark [of ev cl filter_re] assms
  unfolding write_before_mark_def by blast

text \<open>The theorem on a flat directory of three images: the first mark is the fourth event.\<close>

theorem write_before_mark_ordering_witness:
  "3 < length (trace (snd (main flat_env always_prone default_filter_re))) \<and>
   trace (snd (main flat_env always_prone default_filter_re)) ! 3 = Mark ''001.jpg'' \<and>
   trace (snd (main flat_env always_prone default_filter_re)) ! (3 - 1) = Flush \<and>
   (\<exists>reply. trace (snd (main flat_env always_prone default_filter_re)) ! (3 - 2)
             = Write (response_csv_line ''001.jpg'' reply))"
proof -
  have h1: "3 < length (trace (snd (main flat_env always_prone default_filter_re)))"
    by code_simp
  have h2: "trace (snd (main flat_env always_prone default_filter_re)) ! 3 = Mark ''001.jpg''"
    by code_simp
  show ?thesis
    using h1 h2 write_before_mark_ordering [OF h1 h2] by blast
qed

section \<open>Keyed by the bare filename\<close>

lemma fresh_append: "fresh L (xs @ ys) \<longleftrightarrow> fresh L xs \<and> fresh (L \<union> set (marks xs)) ys"
  by (induction L xs rule: fresh.induct) auto

lemma fresh_failed: "fresh L (concat (map (failed_attempt p) ks)) \<longleftrightarrow> ks = [] \<or> (p \<noteq> [] \<and> last p \<notin> L)"
  by (induction ks) (auto simp: failed_attempt_def)

lemma fresh_known:
  "fresh L tr \<Longrightarrow> F \<in> L \<Longrightarrow> Mark F \<notin> set tr \<and> (\<forall>d. Submit (join d F) \<notin> set tr)"
proof (induction L tr rule: fresh.induct)
  case (2 L p es)
  then show ?case by (auto simp: join_def)
qed auto

lemma submits_fresh_refl: "submits_fresh s s"
  by (simp add: submits_fresh_def)

lemma submits_fresh_trans: "submits_fresh a b \<Longrightarrow> submits_fresh b c \<Longrightarrow> submits_fresh a c"
  unfolding submits_fresh_def
  by (elim exE conjE, rule_tac x = "tr @ tra" in exI) (simp add: fresh_append marks_append Un_assoc)

lemma submits_fresh_skip: "submits_fresh s (s\<lparr>trace := trace s @ [Skipping fn]\<rparr>)"
  by (simp add: submits_fresh_def)

lemma submits_fresh_item:
  assumes "fn \<notin> ledger s"
  shows "submits_fresh s (retry_loop cl (join d fn) fn 0 s)"
proof (cases rule: retry_loop_cases [of cl "join d fn" fn s])
  case (success K reply)
  have "fresh (ledger s) (success_events (join d fn) fn K reply)"
    using assms
    by (simp add: success_events_def fresh_append fresh_failed marks_failed join_def del: upt_Suc)
  then show ?thesis
    unfolding submits_fresh_def success(2)
    by (intro exI [of _ "success_events (join d fn) fn K reply"]) (simp add: success_events_proj)
next
  case exhausted
  have "fresh (ledger s) (exhausted_events (join d fn))"
    using assms
    by (simp add: exhausted_events_def fresh_append fresh_failed marks_failed join_def)
  then show ?thesis
    unfolding submits_fresh_def exhausted
    by (intro exI [of _ "exhausted_events (join d fn)"]) (simp add: exhausted_events_proj)
qed

lemma main_fresh: "fresh (ledger (initial_state ev)) (trace (snd (main ev cl filter_re)))"
proof -
  have "submits_fresh (initial_state ev) (snd (main ev cl filter_re))"
    by (rule main_lift [of submits_fresh])
       (auto intro: submits_fresh_refl submits_fresh_trans submits_fresh_skip submits_fresh_item)
  then show ?thesis by (simp add: submits_fresh_def trace_initial)
qed

lemma known_never_submitted:
  "F \<in> ledger (initial_state ev) \<Longrightarrow>
   Mark F \<notin> set (trace (snd (main ev cl filter_re))) \<and>
   (\<forall>d. Submit (join d F) \<notin> set (trace (snd (main ev cl filter_re))))"
  using main_fresh [of ev cl filter_re] by (rule fresh_known)









section \<open>What is submitted\<close>

lemma submits_iff: "p \<in> set (submits tr) \<longleftrightarrow> Submit p \<in> set tr"
  by (induction tr rule: submits.induct) auto

lemma only_accepted_refl: "only_accepted fs filter_re s s"
  by (simp add: only_accepted_def)

lemma only_accepted_trans:
  "only_accepted fs filter_re a b \<Longrightarrow> only_accepted fs filter_re b c \<Longrightarrow> only_accepted fs filter_re a c"
  unfolding only_accepted_def
  by (elim exE conjE, rule_tac x = "tr @ tra" in exI) (auto simp: submits_append)

lemma only_accepted_skip: "only_accepted fs filter_re s (s\<lparr>trace := trace s @ [Skipping fn]\<rparr>)"
  by (simp add: only_accepted_def)

lemma only_accepted_item:
  assumes "filter_re fn" "isfile fs (join d fn)"
  shows "only_accepted fs filter_re s (retry_loop cl (join d fn) fn 0 s)"
proof (cases rule: retry_loop_cases [of cl "join d fn" fn s])
  case (success K reply)
  show ?thesis
    unfolding only_accepted_def success(2)
    using assms
    by (intro exI [of _ "success_events (join d fn) fn K reply"]) (auto simp: success_events_proj)
next
  case exhausted
  show ?thesis
    unfolding only_accepted_def exhausted
    using assms
    by (intro exI [of _ "exhausted_events (join d fn)"]) (auto simp: exhausted_events_proj)
qed

lemma main_only_accepted:
  "Submit p \<in> set (trace (snd (main ev cl filter_re))) \<Longrightarrow>
   \<exists>d fn. p = join d fn \<and> filter_re fn \<and> isfile (image_directory ev) p"
proof -
  have "only_accepted (image_directory ev) filter_re (initial_state ev) (snd (main ev cl filter_re))"
    by (rule main_lift [of "only_accepted (image_directory ev) filter_re"])
       (auto intro: only_accepted_refl only_accepted_trans only_accepted_skip only_accepted_item)
  then show "Submit p \<in> set (trace (snd (main ev cl filter_re))) \<Longrightarrow>
      \<exists>d fn. p = join d fn \<and> filter_re fn \<and> isfile (image_directory ev) p"
    by (auto simp: only_accepted_def trace_initial submits_iff)
qed

text \<open>
  C8 as stated fails on "silently": a directory named \<^verbatim>\<open>1.jpg\<close>, a name that matches
  the pattern and is in the ledger, is not a regular file and is passed over with the
  notice of an item already written, since line 79 tests the ledger before line 86 tests
  the file.
\<close>

theorem silent_skip_counterexample:
  "default_filter_re ''1.jpg'' \<and> \<not> isfile name_taken_tree (join [] ''1.jpg'') \<and>
   process_entries name_taken_tree default_filter_re always_prone [] [''1.jpg''] name_taken_state =
     (None, name_taken_state\<lparr>trace := [Skipping ''1.jpg'']\<rparr>)"
  by code_simp

text \<open>
  C8, amended. Every submission of a run is of a path whose last component matches the
  pattern and that is a regular file. An entry that fails either test is never submitted,
  raises nothing and the loop goes on with the next entry: with no effect at all when the
  name does not match or is not in the ledger, and with the notice of an item already
  written when the name matches and is in the ledger.
\<close>

theorem acceptance_predicate:
  "(Submit p \<in> set (trace (snd (main ev cl filter_re))) \<longrightarrow>
      (\<exists>d fn. p = join d fn \<and> filter_re fn \<and> isfile (image_directory ev) p)) \<and>
   (\<not> filter_re a \<longrightarrow>
      process_entries fs filter_re cl dir (a # rest) s = process_entries fs filter_re cl dir rest s) \<and>
   (\<not> isfile fs (join dir b) \<and> b \<notin> ledger s \<longrightarrow>
      process_entries fs filter_re cl dir (b # rest) s = process_entries fs filter_re cl dir rest s) \<and>
   (\<not> isfile fs (join dir c) \<and> filter_re c \<and> c \<in> ledger s \<longrightarrow>
      process_entries fs filter_re cl dir (c # rest) s =
      process_entries fs filter_re cl dir rest (s\<lparr>trace := trace s @ [Skipping c]\<rparr>))"
  using main_only_accepted [of p ev cl filter_re] by simp

text \<open>
  The theorem on a flat directory of images, and on a directory with an entry that does
  not match, a special file and a directory named like an image.
\<close>

theorem acceptance_predicate_witness:
  "Submit [''001.jpg''] \<in> set (trace (snd (main flat_env always_prone default_filter_re))) \<and>
   (\<exists>d fn. [''001.jpg''] = join d fn \<and> default_filter_re fn \<and>
            isfile (image_directory flat_env) [''001.jpg'']) \<and>
   \<not> default_filter_re ''notes.txt'' \<and>
   process_entries name_taken_tree default_filter_re always_prone [] (''notes.txt'' # [''2.jpg'']) name_taken_state =
     process_entries name_taken_tree default_filter_re always_prone [] [''2.jpg''] name_taken_state \<and>
   \<not> isfile name_taken_tree (join [] ''3.jpg'') \<and> ''3.jpg'' \<notin> ledger name_taken_state \<and>
   process_entries name_taken_tree default_filter_re always_prone [] (''3.jpg'' # [''2.jpg'']) name_taken_state =
     process_entries name_taken_tree default_filter_re always_prone [] [''2.jpg''] name_taken_state \<and>
   \<not> isfile name_taken_tree (join [] ''1.jpg'') \<and> default_filter_re ''1.jpg'' \<and>
   ''1.jpg'' \<in> ledger name_taken_state \<and>
   process_entries name_taken_tree default_filter_re always_prone [] (''1.jpg'' # [''2.jpg'']) name_taken_state =
     process_entries name_taken_tree default_filter_re always_prone [] [''2.jpg'']
       (name_taken_state\<lparr>trace := trace name_taken_state @ [Skipping ''1.jpg'']\<rparr>)"
proof -
  have h1: "Submit [''001.jpg''] \<in> set (trace (snd (main flat_env always_prone default_filter_re)))"
    by code_simp
  have h2: "\<not> default_filter_re ''notes.txt''" by code_simp
  have h3: "\<not> isfile name_taken_tree (join [] ''3.jpg'')" "''3.jpg'' \<notin> ledger name_taken_state"
    by code_simp+
  have h4: "\<not> isfile name_taken_tree (join [] ''1.jpg'')" "default_filter_re ''1.jpg''"
    "''1.jpg'' \<in> ledger name_taken_state"
    by code_simp+
  show ?thesis
    using h1 h2 h3 h4
      acceptance_predicate [of "[''001.jpg'']" flat_env always_prone default_filter_re
        "''notes.txt''" name_taken_tree "[]" "[''2.jpg'']" name_taken_state "''3.jpg''" "''1.jpg''"]
    by blast
qed

section \<open>Reading back what was written\<close>

lemma universal_newlines_append:
  "a = [] \<or> last a \<noteq> CR \<Longrightarrow> universal_newlines (a @ b) = universal_newlines a @ universal_newlines b"
proof (induction a rule: universal_newlines.induct)
  case 1
  show ?case by simp
next
  case (2 c)
  then show ?case by (cases b) auto
next
  case (3 c d cs)
  then show ?case by (cases "cs = []") (auto split: if_splits)
qed

lemma universal_newlines_id: "CR \<notin> set a \<Longrightarrow> universal_newlines a = a"
  by (induction a rule: universal_newlines.induct) auto

lemma universal_newlines_Nil: "universal_newlines a = [] \<longleftrightarrow> a = []"
  by (induction a rule: universal_newlines.induct) simp_all

lemma universal_newlines_last: "a \<noteq> [] \<Longrightarrow> last a = LF \<Longrightarrow> last (universal_newlines a) = LF"
proof (induction a rule: universal_newlines.induct)
  case 1
  then show ?case by simp
next
  case (2 c)
  then show ?case by simp
next
  case (3 c d cs)
  show ?case
  proof (cases "cs = []")
    case True
    then show ?thesis using "3.prems" by simp
  next
    case False
    then have l: "last cs = LF" "last (d # cs) = LF" using "3.prems" by simp_all
    have n: "universal_newlines cs \<noteq> []" "universal_newlines (d # cs) \<noteq> []"
      using False by (simp_all add: universal_newlines_Nil)
    show ?thesis
    proof (cases "c = CR")
      case c: True
      show ?thesis
      proof (cases "d = LF")
        case True
        then show ?thesis using c n(1) "3.IH"(1) [OF c True False l(1)] by simp
      next
        case d: False
        have "last (universal_newlines (d # cs)) = LF"
          using "3.IH"(2) [OF c d _ l(2)] by simp
        then show ?thesis using c d n(2) by simp
      qed
    next
      case c: False
      have "last (universal_newlines (d # cs)) = LF"
        using "3.IH"(3) [OF c _ l(2)] by simp
      then show ?thesis using c n(2) by simp
    qed
  qed
qed

lemma universal_newlines_terminated: "terminated a \<Longrightarrow> terminated (universal_newlines a)"
  unfolding terminated_def using universal_newlines_last [of a] by (cases "a = []") simp_all

lemma ends_once:
  "LF \<notin> set a \<Longrightarrow> LF \<notin> set w \<Longrightarrow> a @ [LF] = w @ LF # rest \<Longrightarrow> rest = []"
  by (induction a arbitrary: w) (auto simp: Cons_eq_append_conv)

lemma file_lines_append:
  "terminated a \<Longrightarrow> file_lines (a @ b) = file_lines a @ file_lines b"
  unfolding terminated_def
proof (induction a)
  case Nil
  show ?case by simp
next
  case (Cons c a)
  show ?case
  proof (cases "a = []")
    case True
    then show ?thesis using Cons.prems by simp
  next
    case False
    then have ih: "file_lines (a @ b) = file_lines a @ file_lines b"
      using Cons by simp
    have "file_lines a \<noteq> []" using False by (cases a) (auto split: list.splits)
    then show ?thesis using ih by (auto split: list.splits)
  qed
qed

lemma file_lines_first: "LF \<notin> set a \<Longrightarrow> file_lines (a @ LF # b) = (a @ [LF]) # file_lines b"
  by (induction a) auto

lemma split_comma_first:
  "CHR '','' \<notin> set fn \<Longrightarrow> split_comma (fn @ CHR '','' # w) = fn # split_comma w"
  by (induction fn) auto

lemma dropWhile_keeps:
  "\<not> P c \<Longrightarrow> \<exists>zs. dropWhile P (xs @ c # ys) = zs @ c # ys"
  by (induction xs) auto

lemma first_field_clean:
  assumes "clean_key fn"
  shows "first_field (fn @ '', '' @ w) = fn"
proof -
  have comma: "\<not> is_space (CHR '','')" by (simp add: is_space_def)
  have front: "dropWhile is_space (fn @ '', '' @ w) = fn @ '', '' @ w"
    using assms comma by (cases fn) (auto simp: clean_key_def)
  have "rev (fn @ '', '' @ w) = rev (CHR '' '' # w) @ CHR '','' # rev fn" by simp
  then obtain zs where "dropWhile is_space (rev (fn @ '', '' @ w)) = zs @ CHR '','' # rev fn"
    using dropWhile_keeps [of is_space "CHR '',''" "rev (CHR '' '' # w)" "rev fn"] comma by auto
  then have "strip (fn @ '', '' @ w) = fn @ CHR '','' # rev zs"
    unfolding strip_def front by simp
  then show ?thesis
    using assms by (simp add: first_field_def split_comma_first clean_key_def)
qed

lemma load_ledger_set:
  "load_ledger content = set (map first_field (file_lines (universal_newlines content)))"
proof -
  have "fold (\<lambda>line already. insert (first_field line) already) ls A = set (map first_field ls) \<union> A"
    for ls A by (induction ls arbitrary: A) auto
  then show ?thesis by (simp add: load_ledger_def)
qed

lemma load_ledger_line:
  assumes st: "terminated st" and fn: "clean_key fn"
  shows "\<exists>extra. load_ledger (st @ response_csv_line fn reply) = insert fn (load_ledger st) \<union> extra \<and>
           (single_line reply \<longrightarrow> extra = {})"
proof -
  let ?T = "universal_newlines (reply @ [LF])"
  have noCR: "CR \<notin> set (fn @ '', '')" using fn by (auto simp: clean_key_def)
  have u1: "universal_newlines (st @ response_csv_line fn reply) =
        universal_newlines st @ fn @ '', '' @ ?T"
  proof -
    have "st = [] \<or> last st \<noteq> CR" using st by (auto simp: terminated_def)
    then have "universal_newlines (st @ response_csv_line fn reply) =
        universal_newlines st @ universal_newlines ((fn @ '', '') @ reply @ [LF])"
      by (simp add: universal_newlines_append response_csv_line_def)
    also have "universal_newlines ((fn @ '', '') @ reply @ [LF]) =
        universal_newlines (fn @ '', '') @ ?T"
      by (rule universal_newlines_append) simp
    also have "universal_newlines (fn @ '', '') = fn @ '', ''"
      using noCR by (rule universal_newlines_id)
    finally show ?thesis by simp
  qed
  have "?T \<noteq> []" by (simp add: universal_newlines_Nil)
  moreover have "last ?T = LF" by (rule universal_newlines_last) simp_all
  ultimately have "LF \<in> set ?T" using last_in_set [of ?T] by simp
  then obtain w rest where T: "?T = w @ LF # rest" and w: "LF \<notin> set w"
    by (meson split_list_first)
  have "LF \<notin> set (fn @ '', '' @ w)" using fn w by (auto simp: clean_key_def)
  then have "file_lines ((fn @ '', '' @ w) @ LF # rest) = ((fn @ '', '' @ w) @ [LF]) # file_lines rest"
    by (rule file_lines_first)
  then have fl: "file_lines (universal_newlines (st @ response_csv_line fn reply)) =
      file_lines (universal_newlines st) @ (fn @ '', '' @ w @ [LF]) # file_lines rest"
    unfolding u1 T using universal_newlines_terminated [OF st] by (simp add: file_lines_append)
  have key: "first_field (fn @ '', '' @ w @ [LF]) = fn"
    using first_field_clean [OF fn, of "w @ [LF]"] by simp
  have eq: "load_ledger (st @ response_csv_line fn reply) =
      insert fn (load_ledger st) \<union> set (map first_field (file_lines rest))"
    unfolding load_ledger_set fl using key by auto
  have "single_line reply \<Longrightarrow> rest = []"
  proof -
    assume "single_line reply"
    then have "?T = reply @ [LF]" "LF \<notin> set reply"
      by (simp_all add: universal_newlines_id single_line_def)
    then have "reply @ [LF] = w @ LF # rest" using T by simp
    then show "rest = []"
      using \<open>LF \<notin> set reply\<close> w by (rule ends_once [rotated 2])
  qed
  then show ?thesis using eq by (intro exI [of _ "set (map first_field (file_lines rest))"]) auto
qed

lemma load_ledger_keeps:
  assumes "terminated st" "clean_key fn"
  shows "insert fn (load_ledger st) \<subseteq> load_ledger (st @ response_csv_line fn reply)"
  using load_ledger_line [OF assms, of reply] by auto

lemma load_ledger_exact:
  assumes "terminated st" "clean_key fn" "single_line reply"
  shows "load_ledger (st @ response_csv_line fn reply) = insert fn (load_ledger st)"
  using load_ledger_line [OF assms(1,2), of reply] assms(3) by auto

lemma terminated_line: "terminated (st @ response_csv_line fn reply)"
  by (simp add: terminated_def response_csv_line_def)

lemma load_ledger_records:
  "(\<forall>r \<in> set records. clean_key (fst r) \<and> single_line (snd r)) \<Longrightarrow>
   terminated (concat (map (\<lambda>r. response_csv_line (fst r) (snd r)) records)) \<and>
   load_ledger (concat (map (\<lambda>r. response_csv_line (fst r) (snd r)) records)) = set (map fst records)"
proof (induction records rule: rev_induct)
  case Nil
  show ?case by (simp add: terminated_def load_ledger_def)
next
  case (snoc r records)
  then have ih: "terminated (concat (map (\<lambda>r. response_csv_line (fst r) (snd r)) records))"
      "load_ledger (concat (map (\<lambda>r. response_csv_line (fst r) (snd r)) records)) = set (map fst records)"
    and r: "clean_key (fst r)" "single_line (snd r)"
    by simp_all
  show ?case
    using load_ledger_exact [OF ih(1) r] ih(2) by (simp add: terminated_line)
qed

text \<open>
  C7 as stated fails for a filename that begins with a space: it has no comma, the reply
  is one line, the default pattern matches it, and the loader strips the line and finds
  the key without the space.
\<close>

theorem leading_space_counterexample:
  "default_filter_re '' 1.jpg'' \<and> CHR '','' \<notin> set '' 1.jpg'' \<and> single_line ''prone'' \<and>
   '' 1.jpg'' \<notin> load_ledger (response_csv_line '' 1.jpg'' ''prone'') \<and>
   load_ledger (response_csv_line '' 1.jpg'' ''prone'') = {''1.jpg''}"
  by code_simp

text \<open>
  C7, amended. A successful call persists the line of the filename, a comma and a space,
  the reply and a newline, and the retry loop does that and marks the filename or leaves
  store and ledger as they were. When the store before the write is empty or ends in a
  newline and the filename has no comma, no line break and no whitespace in front,
  loading the store after the write yields the filename as a key and keeps the keys it
  had; when the reply is one line, it yields exactly one key more; and loading a store
  written from nothing by such items yields exactly the set of their filenames.
\<close>

theorem writer_loader_round_trip:
  "(cl (calls s) p = Some reply \<longrightarrow>
      store (retry_loop cl p fn 0 s) = store s @ fn @ '', '' @ reply @ [LF]) \<and>
   ((store (retry_loop cl p fn 0 s) = store s \<and> ledger (retry_loop cl p fn 0 s) = ledger s) \<or>
    (\<exists>r. store (retry_loop cl p fn 0 s) = store s @ fn @ '', '' @ r @ [LF] \<and>
         ledger (retry_loop cl p fn 0 s) = insert fn (ledger s))) \<and>
   (terminated st \<and> clean_key key \<longrightarrow>
      key \<in> load_ledger (st @ response_csv_line key answer) \<and>
      load_ledger st \<subseteq> load_ledger (st @ response_csv_line key answer)) \<and>
   (terminated st \<and> clean_key key \<and> single_line answer \<longrightarrow>
      load_ledger (st @ response_csv_line key answer) = insert key (load_ledger st)) \<and>
   ((\<forall>r \<in> set records. clean_key (fst r) \<and> single_line (snd r)) \<longrightarrow>
      load_ledger (concat (map (\<lambda>r. response_csv_line (fst r) (snd r)) records))
        = set (map fst records))"
proof (intro conjI impI)
  assume "cl (calls s) p = Some reply"
  then show "store (retry_loop cl p fn 0 s) = store s @ fn @ '', '' @ reply @ [LF]"
    using retry_loop_fails_then_succeeds [of 0 0 cl s p reply fn]
    by (simp add: max_retries_def response_csv_line_def)
next
  show "(store (retry_loop cl p fn 0 s) = store s \<and> ledger (retry_loop cl p fn 0 s) = ledger s) \<or>
    (\<exists>r. store (retry_loop cl p fn 0 s) = store s @ fn @ '', '' @ r @ [LF] \<and>
         ledger (retry_loop cl p fn 0 s) = insert fn (ledger s))"
    by (cases rule: retry_loop_cases [of cl p fn s]) (simp_all add: response_csv_line_def)
next
  assume a: "terminated st \<and> clean_key key"
  then show "key \<in> load_ledger (st @ response_csv_line key answer)"
    and "load_ledger st \<subseteq> load_ledger (st @ response_csv_line key answer)"
    using load_ledger_keeps [of st key answer] by auto
next
  assume "terminated st \<and> clean_key key \<and> single_line answer"
  then show "load_ledger (st @ response_csv_line key answer) = insert key (load_ledger st)"
    by (simp add: load_ledger_exact)
next
  assume "\<forall>r \<in> set records. clean_key (fst r) \<and> single_line (snd r)"
  then show "load_ledger (concat (map (\<lambda>r. response_csv_line (fst r) (snd r)) records))
        = set (map fst records)"
    using load_ledger_records [of records] by simp
qed

text \<open>
  The theorem for one write after a store of one line, and for a store of two items, one
  of them with a comma in its reply.
\<close>

theorem writer_loader_round_trip_witness:
  "always_prone (calls fresh_state) [''001.jpg''] = Some ''prone'' \<and>
   store (retry_loop always_prone [''001.jpg''] ''001.jpg'' 0 fresh_state)
     = store fresh_state @ ''001.jpg'' @ '', '' @ ''prone'' @ [LF] \<and>
   terminated (''000.jpg, supine'' @ [LF]) \<and> clean_key ''001.jpg'' \<and> single_line ''prone'' \<and>
   ''001.jpg'' \<in> load_ledger ((''000.jpg, supine'' @ [LF]) @ response_csv_line ''001.jpg'' ''prone'') \<and>
   load_ledger ((''000.jpg, supine'' @ [LF]) @ response_csv_line ''001.jpg'' ''prone'')
     = insert ''001.jpg'' (load_ledger (''000.jpg, supine'' @ [LF])) \<and>
   clean_key ''002.png'' \<and> single_line ''sitting, supported'' \<and>
   load_ledger (concat (map (\<lambda>r. response_csv_line (fst r) (snd r))
       [(''001.jpg'', ''prone''), (''002.png'', ''sitting, supported'')]))
     = set (map fst [(''001.jpg'', ''prone''), (''002.png'', ''sitting, supported'')])"
proof -
  have h1: "always_prone (calls fresh_state) [''001.jpg''] = Some ''prone''"
    by (simp add: always_prone_def)
  have h2: "terminated (''000.jpg, supine'' @ [LF])" by (simp add: terminated_def)
  have h3: "clean_key ''001.jpg''" "clean_key ''002.png''"
    by (simp_all add: clean_key_def is_space_def)
  have h4: "single_line ''prone''" "single_line ''sitting, supported''"
    by (simp_all add: single_line_def)
  have h5: "\<forall>r \<in> set [(''001.jpg'', ''prone''), (''002.png'', ''sitting, supported'')].
      clean_key (fst r) \<and> single_line (snd r)"
    using h3 h4 by simp
  show ?thesis
    using h1 h2 h3 h4 h5
      writer_loader_round_trip [of always_prone fresh_state "[''001.jpg'']" "''prone''" "''001.jpg''"
        "''000.jpg, supine'' @ [LF]" "''001.jpg''" "''prone''"
        "[(''001.jpg'', ''prone''), (''002.png'', ''sitting, supported'')]"]
    by blast
qed

section \<open>A second run over an unchanged tree and store\<close>

lemma covered_mono: "covered fs filter_re L d \<Longrightarrow> L \<subseteq> L' \<Longrightarrow> covered fs filter_re L' d"
  by (auto simp: covered_def split: option.splits)

lemma entry_covered_mono:
  "entry_covered fs filter_re L e \<Longrightarrow> L \<subseteq> L' \<Longrightarrow> entry_covered fs filter_re L' e"
  unfolding entry_covered_def using covered_mono by (auto split: if_splits)

lemma gave_up_in_exhausted: "GaveUp \<in> set (exhausted_events p)"
  by (simp add: exhausted_events_def)

lemma retry_loop_marks_or_gives_up:
  "GaveUp \<notin> set (trace (retry_loop cl p fn 0 s)) \<Longrightarrow> fn \<in> ledger (retry_loop cl p fn 0 s)"
proof (cases rule: retry_loop_cases [of cl p fn s])
  case (success K reply)
  then show ?thesis by simp
next
  case exhausted
  assume "GaveUp \<notin> set (trace (retry_loop cl p fn 0 s))"
  then show ?thesis unfolding exhausted using gave_up_in_exhausted [of p] by simp
qed

lemma process_entries_covers:
  "process_entries fs filter_re cl d names s = (None, s') \<Longrightarrow> GaveUp \<notin> set (trace s') \<Longrightarrow>
   \<forall>fn \<in> set names. filter_re fn \<and> isfile fs (join d fn) \<longrightarrow> fn \<in> ledger s'"
proof (induction names arbitrary: s)
  case Nil
  show ?case by simp
next
  case (Cons fn rest)
  show ?case
  proof (cases "filter_re fn \<and> isfile fs (join d fn)")
    case False
    then have "\<exists>t. process_entries fs filter_re cl d rest t = (None, s')"
      using Cons.prems(1) by (auto split: if_splits)
    then show ?thesis using Cons.IH Cons.prems(2) False by auto
  next
    case acc: True
    show ?thesis
    proof (cases "fn \<in> ledger s")
      case True
      let ?t = "s\<lparr>trace := trace s @ [Skipping fn]\<rparr>"
      have run: "process_entries fs filter_re cl d rest ?t = (None, s')"
        using Cons.prems(1) acc True by simp
      have "accounted ?t s'"
        using process_entries_accounted [of ?t fs filter_re cl d rest] run by simp
      then have "ledger ?t \<subseteq> ledger s'" by (rule accounted_ledger)
      then have "fn \<in> ledger s'" using True by auto
      then show ?thesis using Cons.IH [OF run Cons.prems(2)] by simp
    next
      case False
      let ?t = "retry_loop cl (join d fn) fn 0 s"
      have opened: "image_open fs (join d fn)"
        using Cons.prems(1) acc False by (auto split: if_splits)
      have run: "process_entries fs filter_re cl d rest ?t = (None, s')"
        using Cons.prems(1) acc False opened by simp
      have acct: "accounted ?t s'"
        using process_entries_accounted [of ?t fs filter_re cl d rest] run by simp
      then have "GaveUp \<notin> set (trace ?t)"
        using Cons.prems(2) by (auto dest: accounted_trace)
      then have "fn \<in> ledger ?t" by (rule retry_loop_marks_or_gives_up)
      then have "fn \<in> ledger s'" using acct by (auto dest: accounted_ledger)
      then show ?thesis using Cons.IH [OF run Cons.prems(2)] by simp
    qed
  qed
qed

lemma send_covers:
  assumes "send_filtered_image_prompts_for_directory fs filter_re cl d s = (None, s')"
    and "GaveUp \<notin> set (trace s')"
  shows "covered fs filter_re (ledger s') d"
proof (cases "listdir fs d")
  case None
  then show ?thesis using assms(1) by (simp add: send_filtered_image_prompts_for_directory_def)
next
  case (Some names)
  then have "process_entries fs filter_re cl d (sort names) s = (None, s')"
    using assms(1) by (simp add: send_filtered_image_prompts_for_directory_def)
  from process_entries_covers [OF this assms(2)] show ?thesis
    using Some by (simp add: covered_def)
qed

lemma subdirs_loop_covers:
  "subdirs_loop fs filter_re cl subs s = (None, s') \<Longrightarrow> GaveUp \<notin> set (trace s') \<Longrightarrow>
   \<forall>sub \<in> set subs. covered fs filter_re (ledger s') (join [] sub)"
proof (induction subs arbitrary: s)
  case Nil
  show ?case by simp
next
  case (Cons sub rest)
  obtain r t where one: "send_filtered_image_prompts_for_directory fs filter_re cl (join [] sub) s = (r, t)"
    by (cases "send_filtered_image_prompts_for_directory fs filter_re cl (join [] sub) s")
  have r: "r = None" using Cons.prems(1) one by (cases r) auto
  have run: "subdirs_loop fs filter_re cl rest t = (None, s')"
    using Cons.prems(1) one r by simp
  have acct: "accounted t s'"
    using subdirs_loop_accounted [of t fs filter_re cl rest] run by simp
  then have "GaveUp \<notin> set (trace t)" using Cons.prems(2) by (auto dest: accounted_trace)
  then have "covered fs filter_re (ledger t) (join [] sub)"
    using send_covers one r by blast
  then have "covered fs filter_re (ledger s') (join [] sub)"
    using acct by (auto intro: covered_mono dest: accounted_ledger)
  then show ?case using Cons.IH [OF run Cons.prems(2)] by simp
qed

lemma walk_loop_covers:
  "walk_loop fs filter_re cl entries s = (None, s') \<Longrightarrow> GaveUp \<notin> set (trace s') \<Longrightarrow>
   \<forall>e \<in> set entries. entry_covered fs filter_re (ledger s') e"
proof (induction entries arbitrary: s)
  case Nil
  show ?case by simp
next
  case (Cons entry rest)
  obtain dirpath dirnames filenames where entry: "entry = (dirpath, dirnames, filenames)"
    by (cases entry) auto
  define body where "body =
    (if dirnames = [] then send_filtered_image_prompts_for_directory fs filter_re cl [] s
     else subdirs_loop fs filter_re cl (sort dirnames) s)"
  obtain r t where one: "body = (r, t)" by (cases body)
  have r: "r = None" using Cons.prems(1) one entry body_def by (cases r) auto
  have run: "walk_loop fs filter_re cl rest t = (None, s')"
    using Cons.prems(1) one r entry body_def by simp
  have acct: "accounted t s'"
    using walk_loop_accounted [of t fs filter_re cl rest] run by simp
  then have quiet: "GaveUp \<notin> set (trace t)" using Cons.prems(2) by (auto dest: accounted_trace)
  have "entry_covered fs filter_re (ledger t) entry"
  proof (cases "dirnames = []")
    case True
    then have "send_filtered_image_prompts_for_directory fs filter_re cl [] s = (None, t)"
      using one r body_def by simp
    from send_covers [OF this quiet] show ?thesis
      using True entry by (simp add: entry_covered_def)
  next
    case False
    then have "subdirs_loop fs filter_re cl (sort dirnames) s = (None, t)"
      using one r body_def by simp
    from subdirs_loop_covers [OF this quiet] show ?thesis
      using False entry by (simp add: entry_covered_def)
  qed
  then have "entry_covered fs filter_re (ledger s') entry"
    using acct by (auto intro: entry_covered_mono dest: accounted_ledger)
  then show ?case using Cons.IH [OF run Cons.prems(2)] by simp
qed

lemma only_skips_refl: "only_skips s s"
  unfolding only_skips_def by (rule exI [of _ "[]"]) simp

lemma only_skips_trans: "only_skips a b \<Longrightarrow> only_skips b c \<Longrightarrow> only_skips a c"
  unfolding only_skips_def
  by (elim exE, rule_tac x = "fns @ fnsa" in exI) simp

lemma only_skips_ledger: "only_skips s s' \<Longrightarrow> ledger s' = ledger s"
  by (auto simp: only_skips_def)

lemma process_entries_quiet:
  "\<forall>fn \<in> set names. filter_re fn \<and> isfile fs (join d fn) \<longrightarrow> fn \<in> ledger s \<Longrightarrow>
   \<exists>s'. process_entries fs filter_re cl d names s = (None, s') \<and> only_skips s s'"
proof (induction names arbitrary: s)
  case Nil
  show ?case by (simp add: only_skips_refl)
next
  case (Cons fn rest)
  show ?case
  proof (cases "filter_re fn \<and> fn \<in> ledger s")
    case True
    let ?t = "s\<lparr>trace := trace s @ [Skipping fn]\<rparr>"
    have "\<forall>fn \<in> set rest. filter_re fn \<and> isfile fs (join d fn) \<longrightarrow> fn \<in> ledger ?t"
      using Cons.prems by simp
    from Cons.IH [OF this] obtain s' where
      s': "process_entries fs filter_re cl d rest ?t = (None, s')" "only_skips ?t s'" by blast
    have "only_skips s ?t" unfolding only_skips_def by (rule exI [of _ "[fn]"]) simp
    then have "only_skips s s'" using s'(2) by (rule only_skips_trans)
    then show ?thesis using True s'(1) by simp
  next
    case False
    then have skip: "process_entries fs filter_re cl d (fn # rest) s =
        process_entries fs filter_re cl d rest s"
      using Cons.prems by auto
    have "\<forall>fn \<in> set rest. filter_re fn \<and> isfile fs (join d fn) \<longrightarrow> fn \<in> ledger s"
      using Cons.prems by simp
    from Cons.IH [OF this] show ?thesis unfolding skip .
  qed
qed

lemma send_quiet:
  assumes "covered fs filter_re (ledger s) d"
  shows "\<exists>s'. send_filtered_image_prompts_for_directory fs filter_re cl d s = (None, s') \<and> only_skips s s'"
proof (cases "listdir fs d")
  case None
  then show ?thesis using assms by (simp add: covered_def)
next
  case (Some names)
  then have "\<forall>fn \<in> set (sort names). filter_re fn \<and> isfile fs (join d fn) \<longrightarrow> fn \<in> ledger s"
    using assms by (simp add: covered_def)
  from process_entries_quiet [OF this] show ?thesis
    using Some by (simp add: send_filtered_image_prompts_for_directory_def)
qed

lemma subdirs_loop_quiet:
  "\<forall>sub \<in> set subs. covered fs filter_re (ledger s) (join [] sub) \<Longrightarrow>
   \<exists>s'. subdirs_loop fs filter_re cl subs s = (None, s') \<and> only_skips s s'"
proof (induction subs arbitrary: s)
  case Nil
  show ?case by (simp add: only_skips_refl)
next
  case (Cons sub rest)
  have "covered fs filter_re (ledger s) (join [] sub)" using Cons.prems by simp
  from send_quiet [OF this] obtain t where
    t: "send_filtered_image_prompts_for_directory fs filter_re cl (join [] sub) s = (None, t)"
       "only_skips s t" by blast
  have "\<forall>sub \<in> set rest. covered fs filter_re (ledger t) (join [] sub)"
    using Cons.prems only_skips_ledger [OF t(2)] by simp
  from Cons.IH [OF this] obtain s' where
    s': "subdirs_loop fs filter_re cl rest t = (None, s')" "only_skips t s'" by blast
  have "only_skips s s'" using t(2) s'(2) by (rule only_skips_trans)
  then show ?case using t(1) s'(1) by simp
qed

lemma walk_loop_quiet:
  "\<forall>e \<in> set entries. entry_covered fs filter_re (ledger s) e \<Longrightarrow>
   \<exists>s'. walk_loop fs filter_re cl entries s = (None, s') \<and> only_skips s s'"
proof (induction entries arbitrary: s)
  case Nil
  show ?case by (simp add: only_skips_refl)
next
  case (Cons entry rest)
  obtain dirpath dirnames filenames where entry: "entry = (dirpath, dirnames, filenames)"
    by (cases entry) auto
  define body where "body =
    (if dirnames = [] then send_filtered_image_prompts_for_directory fs filter_re cl [] s
     else subdirs_loop fs filter_re cl (sort dirnames) s)"
  have cov: "entry_covered fs filter_re (ledger s) entry" using Cons.prems by simp
  have "\<exists>t. body = (None, t) \<and> only_skips s t"
  proof (cases "dirnames = []")
    case True
    then have "covered fs filter_re (ledger s) []"
      using cov entry by (simp add: entry_covered_def)
    from send_quiet [OF this] show ?thesis using True body_def by simp
  next
    case False
    then have "\<forall>sub \<in> set (sort dirnames). covered fs filter_re (ledger s) (join [] sub)"
      using cov entry by (simp add: entry_covered_def)
    from subdirs_loop_quiet [OF this] show ?thesis using False body_def by simp
  qed
  then obtain t where t: "body = (None, t)" "only_skips s t" by blast
  have "\<forall>e \<in> set rest. entry_covered fs filter_re (ledger t) e"
    using Cons.prems only_skips_ledger [OF t(2)] by simp
  from Cons.IH [OF this] obtain s' where
    s': "walk_loop fs filter_re cl rest t = (None, s')" "only_skips t s'" by blast
  have "only_skips s s'" using t(2) s'(2) by (rule only_skips_trans)
  then show ?case using t(1) s'(1) entry body_def by simp
qed

lemma store_keeps_ledger_refl: "store_keeps_ledger s s"
  unfolding store_keeps_ledger_def by (rule exI [of _ "[]"]) simp

lemma store_keeps_ledger_trans:
  "store_keeps_ledger a b \<Longrightarrow> store_keeps_ledger b c \<Longrightarrow> store_keeps_ledger a c"
  unfolding store_keeps_ledger_def
  by (elim exE conjE, rule_tac x = "tr @ tra" in exI) (simp add: marks_append)

lemma store_keeps_ledger_skip: "store_keeps_ledger s (s\<lparr>trace := trace s @ [Skipping fn]\<rparr>)"
  unfolding store_keeps_ledger_def by (rule exI [of _ "[Skipping fn]"]) simp

lemma store_keeps_ledger_item: "store_keeps_ledger s (retry_loop cl p fn 0 s)"
proof (cases rule: retry_loop_cases [of cl p fn s])
  case (success K reply)
  have "terminated (store s @ response_csv_line fn reply) \<and>
        insert fn (ledger s) \<subseteq> load_ledger (store s @ response_csv_line fn reply)"
    if "clean_key fn" "terminated (store s)" "ledger s \<subseteq> load_ledger (store s)"
    using load_ledger_keeps [OF that(2,1), of reply] that(3) terminated_line [of "store s" fn reply]
    by auto
  then show ?thesis
    unfolding store_keeps_ledger_def success(2)
    by (intro exI [of _ "success_events p fn K reply"]) (simp add: success_events_proj)
next
  case exhausted
  show ?thesis
    unfolding store_keeps_ledger_def exhausted
    by (intro exI [of _ "exhausted_events p"]) simp
qed

lemma main_store_keeps_ledger:
  assumes "terminated (store (initial_state ev))"
    and "\<forall>f \<in> set (marks (trace (snd (main ev cl filter_re)))). clean_key f"
  shows "ledger (snd (main ev cl filter_re)) \<subseteq> load_ledger (store (snd (main ev cl filter_re)))"
proof -
  have "store_keeps_ledger (initial_state ev) (snd (main ev cl filter_re))"
    by (rule main_lift [of store_keeps_ledger])
       (auto intro: store_keeps_ledger_refl store_keeps_ledger_trans store_keeps_ledger_skip
          store_keeps_ledger_item)
  moreover have "ledger (initial_state ev) \<subseteq> load_ledger (store (initial_state ev))"
    by (simp add: initial_state_def load_ledger_def split: option.split)
  ultimately show ?thesis
    using assms by (auto simp: store_keeps_ledger_def trace_initial)
qed

lemma submits_skipping: "submits (map Skipping fns) = []"
  by (induction fns) simp_all

lemma second_run_quiet:
  assumes run1: "main ev cl filter_re = (None, s1)"
    and quiet: "GaveUp \<notin> set (trace s1)"
    and st: "terminated (store (initial_state ev))"
    and clean: "\<forall>f \<in> set (marks (trace s1)). clean_key f"
  shows "\<exists>s2. main (ev\<lparr>responses_file := Some (store s1)\<rparr>) cl2 filter_re = (None, s2) \<and>
           only_skips (initial_state (ev\<lparr>responses_file := Some (store s1)\<rparr>)) s2"
proof -
  let ?fs = "image_directory ev"
  let ?ev2 = "ev\<lparr>responses_file := Some (store s1)\<rparr>"
  obtain prompt where prompt: "prompt_file ev = Some prompt"
    using run1 by (cases "prompt_file ev") (simp_all add: main_def)
  have app: "responses_appendable ev"
    using run1 prompt by (auto simp: main_def split: if_splits)
  have walk1: "walk_loop ?fs filter_re cl (walk [] ?fs) (initial_state ev) = (None, s1)"
    using run1 prompt app by (simp add: main_def)
  have cov: "\<forall>e \<in> set (walk [] ?fs). entry_covered ?fs filter_re (ledger s1) e"
    using walk_loop_covers [OF walk1 quiet] .
  have "ledger s1 \<subseteq> load_ledger (store s1)"
    using main_store_keeps_ledger [of ev cl filter_re] st clean run1 by simp
  moreover have "ledger (initial_state ?ev2) = load_ledger (store s1)"
    by (simp add: initial_state_def)
  ultimately have "\<forall>e \<in> set (walk [] ?fs). entry_covered ?fs filter_re (ledger (initial_state ?ev2)) e"
    using cov entry_covered_mono by metis
  from walk_loop_quiet [OF this, of cl2] obtain s2 where
    s2: "walk_loop ?fs filter_re cl2 (walk [] ?fs) (initial_state ?ev2) = (None, s2)"
        "only_skips (initial_state ?ev2) s2" by blast
  have "main ?ev2 cl2 filter_re = (None, s2)"
    using s2(1) prompt app by (simp add: main_def)
  then show ?thesis using s2(2) by blast
qed

lemma load_ledger_store_keys: "load_ledger content = set (store_keys content)"
  by (simp add: load_ledger_set store_keys_def)

lemma one_line_reply: "one_line (response_csv_line fn reply) \<Longrightarrow> single_line reply"
  by (simp add: one_line_def response_csv_line_def single_line_def butlast_append)

lemma store_keys_line:
  assumes st: "terminated st" and fn: "clean_key fn" and reply: "single_line reply"
  shows "store_keys (st @ response_csv_line fn reply) = store_keys st @ [fn]"
proof -
  have noCR: "CR \<notin> set (fn @ '', '' @ reply @ [LF])"
    using fn reply by (auto simp: clean_key_def single_line_def)
  have "st = [] \<or> last st \<noteq> CR" using st by (auto simp: terminated_def)
  then have "universal_newlines (st @ response_csv_line fn reply) =
      universal_newlines st @ universal_newlines (fn @ '', '' @ reply @ [LF])"
    by (simp add: universal_newlines_append response_csv_line_def)
  also have "universal_newlines (fn @ '', '' @ reply @ [LF]) = fn @ '', '' @ reply @ [LF]"
    using noCR by (rule universal_newlines_id)
  finally have u: "universal_newlines (st @ response_csv_line fn reply) =
      universal_newlines st @ fn @ '', '' @ reply @ [LF]" .
  have "LF \<notin> set (fn @ '', '' @ reply)"
    using fn reply by (auto simp: clean_key_def single_line_def)
  then have "file_lines ((fn @ '', '' @ reply) @ LF # []) = ((fn @ '', '' @ reply) @ [LF]) # file_lines []"
    by (rule file_lines_first)
  then have fl: "file_lines (universal_newlines (st @ response_csv_line fn reply)) =
      file_lines (universal_newlines st) @ [fn @ '', '' @ reply @ [LF]]"
    unfolding u using universal_newlines_terminated [OF st] by (simp add: file_lines_append)
  have key: "first_field (fn @ '', '' @ reply @ [LF]) = fn"
    using first_field_clean [OF fn, of "reply @ [LF]"] by simp
  show ?thesis unfolding store_keys_def fl using key by simp
qed

lemma keys_follow_refl: "keys_follow s s"
  unfolding keys_follow_def by (rule exI [of _ "[]"]) simp

lemma keys_follow_trans: "keys_follow a b \<Longrightarrow> keys_follow b c \<Longrightarrow> keys_follow a c"
  unfolding keys_follow_def
  by (elim exE conjE, rule_tac x = "tr @ tra" in exI) (simp add: marks_append writes_append)

lemma keys_follow_skip: "keys_follow s (s\<lparr>trace := trace s @ [Skipping fn]\<rparr>)"
  unfolding keys_follow_def by (rule exI [of _ "[Skipping fn]"]) simp

lemma keys_follow_item: "keys_follow s (retry_loop cl p fn 0 s)"
proof (cases rule: retry_loop_cases [of cl p fn s])
  case (success K reply)
  have "terminated (store s @ response_csv_line fn reply) \<and>
        store_keys (store s @ response_csv_line fn reply) = store_keys (store s) @ [fn]"
    if "clean_key fn" "one_line (response_csv_line fn reply)" "terminated (store s)"
    using store_keys_line [OF that(3,1) one_line_reply [OF that(2)]]
      terminated_line [of "store s" fn reply] by simp
  then show ?thesis
    unfolding keys_follow_def success(2)
    by (intro exI [of _ "success_events p fn K reply"]) (simp add: success_events_proj)
next
  case exhausted
  show ?thesis
    unfolding keys_follow_def exhausted
    by (intro exI [of _ "exhausted_events p"]) (simp add: exhausted_events_proj)
qed

lemma main_keys_follow:
  assumes "terminated (store (initial_state ev))"
    and "\<forall>f \<in> set (marks (trace (snd (main ev cl filter_re)))). clean_key f"
    and "\<forall>l \<in> set (writes (trace (snd (main ev cl filter_re)))). one_line l"
  shows "store_keys (store (snd (main ev cl filter_re))) =
         store_keys (store (initial_state ev)) @ marks (trace (snd (main ev cl filter_re)))"
proof -
  have "keys_follow (initial_state ev) (snd (main ev cl filter_re))"
    by (rule main_lift [of keys_follow])
       (auto intro: keys_follow_refl keys_follow_trans keys_follow_skip keys_follow_item)
  then show ?thesis using assms by (auto simp: keys_follow_def trace_initial)
qed

lemma marks_iff: "f \<in> set (marks tr) \<longleftrightarrow> Mark f \<in> set tr"
  by (induction tr rule: marks.induct) auto

text \<open>
  C1 as stated fails in three ways, each a second run over the tree and the store the first
  run left. A file named \<^verbatim>\<open>a,1.jpg\<close> is recorded under the key \<^verbatim>\<open>a\<close>, so the
  second run, which loads the key \<^verbatim>\<open>a\<close>, submits the file again and appends a second
  line with the key \<^verbatim>\<open>a\<close>. A service that never answers leaves the store empty, and
  the second run makes its twelve calls again. A store whose last line has no newline
  takes the first new line into that line, and the second run submits \<^verbatim>\<open>001.jpg\<close>
  again.
\<close>

theorem rerun_counterexample:
  "main comma_env always_prone default_filter_re =
     (None, \<lparr>store = ''a,1.jpg, prone'' @ [LF], ledger = {''a,1.jpg''}, calls = 1,
             trace = [Submit [''a,1.jpg''], Write (''a,1.jpg, prone'' @ [LF]), Flush, Mark ''a,1.jpg'']\<rparr>) \<and>
   main (comma_env\<lparr>responses_file := Some (''a,1.jpg, prone'' @ [LF])\<rparr>) always_prone default_filter_re =
     (None, \<lparr>store = ''a,1.jpg, prone'' @ [LF] @ ''a,1.jpg, prone'' @ [LF], ledger = {''a'', ''a,1.jpg''},
             calls = 1,
             trace = [Submit [''a,1.jpg''], Write (''a,1.jpg, prone'' @ [LF]), Flush, Mark ''a,1.jpg'']\<rparr>) \<and>
   load_ledger (''a,1.jpg, prone'' @ [LF]) = {''a''} \<and>
   store_keys (''a,1.jpg, prone'' @ [LF] @ ''a,1.jpg, prone'' @ [LF]) = [''a'', ''a''] \<and>
   fst (main flat_env always_fails default_filter_re) = None \<and>
   store (snd (main flat_env always_fails default_filter_re)) = [] \<and>
   length (submits (trace (snd (main (flat_env\<lparr>responses_file := Some []\<rparr>)
       always_fails default_filter_re)))) = 12 \<and>
   fst (main cut_env always_prone default_filter_re) = None \<and>
   store (snd (main cut_env always_prone default_filter_re)) =
     ''000.jpg001.jpg, prone'' @ [LF] @ ''002.jpg, prone'' @ [LF] @ ''003.png, prone'' @ [LF] \<and>
   submits (trace (snd (main (cut_env\<lparr>responses_file :=
       Some (''000.jpg001.jpg, prone'' @ [LF] @ ''002.jpg, prone'' @ [LF] @ ''003.png, prone'' @ [LF])\<rparr>)
       always_prone default_filter_re))) = [[''001.jpg'']]"
  by code_simp

text \<open>
  C1, amended. When a run ends without an exception and without giving up on an item, the
  store it started from was absent, empty or ended in a newline, and the filenames it
  recorded have no comma, no line break and no whitespace in front, then a second run
  over the same tree and the store the first run left ends without an exception, calls
  the remote service not once and leaves the store as it was. In every run, a filename
  that is the key of a line of the loaded store is never submitted and never marked, and
  every line the run writes is the result line of another filename, marked right after
  the flush. When moreover the loaded store ends in a newline, the recorded filenames are
  clean in the same sense and the written lines are one line each, the keys of the store
  after the run are the keys it had followed by the recorded filenames, so the store has
  as many lines with that key as before.
\<close>

theorem resumable_idempotence:
  "(main ev cl filter_re = (None, s1) \<and> GaveUp \<notin> set (trace s1) \<and>
    terminated (store (initial_state ev)) \<and> (\<forall>f \<in> set (marks (trace s1)). clean_key f) \<longrightarrow>
      fst (main (ev\<lparr>responses_file := Some (store s1)\<rparr>) cl2 filter_re) = None \<and>
      submits (trace (snd (main (ev\<lparr>responses_file := Some (store s1)\<rparr>) cl2 filter_re))) = [] \<and>
      calls (snd (main (ev\<lparr>responses_file := Some (store s1)\<rparr>) cl2 filter_re)) = 0 \<and>
      store (snd (main (ev\<lparr>responses_file := Some (store s1)\<rparr>) cl2 filter_re)) = store s1) \<and>
   (responses_file ev = Some content \<and> F \<in> load_ledger content \<longrightarrow>
      (\<forall>d. Submit (join d F) \<notin> set (trace (snd (main ev cl filter_re)))) \<and>
      Mark F \<notin> set (trace (snd (main ev cl filter_re))) \<and>
      (\<forall>i l. i < length (trace (snd (main ev cl filter_re))) \<and>
             trace (snd (main ev cl filter_re)) ! i = Write l \<longrightarrow>
             (\<exists>f reply. f \<noteq> F \<and> l = response_csv_line f reply \<and>
                        trace (snd (main ev cl filter_re)) ! (i + 2) = Mark f))) \<and>
   (responses_file ev = Some content \<and> F \<in> load_ledger content \<and> terminated content \<and>
    (\<forall>f \<in> set (marks (trace (snd (main ev cl filter_re)))). clean_key f) \<and>
    (\<forall>l \<in> set (writes (trace (snd (main ev cl filter_re)))). one_line l) \<longrightarrow>
      store_keys (store (snd (main ev cl filter_re))) =
        store_keys content @ marks (trace (snd (main ev cl filter_re))) \<and>
      F \<notin> set (marks (trace (snd (main ev cl filter_re)))) \<and>
      count_list (store_keys (store (snd (main ev cl filter_re)))) F = count_list (store_keys content) F)"
proof (intro conjI impI)
  assume a: "main ev cl filter_re = (None, s1) \<and> GaveUp \<notin> set (trace s1) \<and>
    terminated (store (initial_state ev)) \<and> (\<forall>f \<in> set (marks (trace s1)). clean_key f)"
  let ?ev2 = "ev\<lparr>responses_file := Some (store s1)\<rparr>"
  from a second_run_quiet [of ev cl filter_re s1 cl2] obtain s2 where
    s2: "main ?ev2 cl2 filter_re = (None, s2)" "only_skips (initial_state ?ev2) s2"
    by blast
  from s2(2) obtain fns where
    fns: "s2 = (initial_state ?ev2)\<lparr>trace := trace (initial_state ?ev2) @ map Skipping fns\<rparr>"
    unfolding only_skips_def by blast
  show "fst (main ?ev2 cl2 filter_re) = None" using s2(1) by simp
  show "submits (trace (snd (main ?ev2 cl2 filter_re))) = []"
    unfolding s2(1) using fns by (simp add: trace_initial submits_skipping)
  show "calls (snd (main ?ev2 cl2 filter_re)) = 0"
    unfolding s2(1) using fns by (simp add: initial_state_def)
  show "store (snd (main ?ev2 cl2 filter_re)) = store s1"
    unfolding s2(1) using fns by (simp add: initial_state_def)
next
  assume b: "responses_file ev = Some content \<and> F \<in> load_ledger content"
  let ?tr = "trace (snd (main ev cl filter_re))"
  from b have known: "F \<in> ledger (initial_state ev)" by (simp add: initial_state_def)
  then show "\<forall>d. Submit (join d F) \<notin> set ?tr" and unmarked: "Mark F \<notin> set ?tr"
    using known_never_submitted [of F ev cl filter_re] by simp_all
  show "\<forall>i l. i < length ?tr \<and> ?tr ! i = Write l \<longrightarrow>
      (\<exists>f reply. f \<noteq> F \<and> l = response_csv_line f reply \<and> ?tr ! (i + 2) = Mark f)"
  proof (intro allI impI)
    fix i l
    assume w: "i < length ?tr \<and> ?tr ! i = Write l"
    then obtain f reply where
      m: "i + 2 < length ?tr" "l = response_csv_line f reply" "?tr ! (i + 2) = Mark f"
      using main_every_write_marked [of ev cl filter_re]
      unfolding every_write_marked_def by blast
    then have "Mark f \<in> set ?tr" using nth_mem [of "i + 2" ?tr] by simp
    then have "f \<noteq> F" using unmarked by auto
    then show "\<exists>f reply. f \<noteq> F \<and> l = response_csv_line f reply \<and> ?tr ! (i + 2) = Mark f"
      using m by blast
  qed
next
  let ?tr = "trace (snd (main ev cl filter_re))"
  assume c: "responses_file ev = Some content \<and> F \<in> load_ledger content \<and> terminated content \<and>
    (\<forall>f \<in> set (marks ?tr). clean_key f) \<and> (\<forall>l \<in> set (writes ?tr). one_line l)"
  then have init: "store (initial_state ev) = content" "F \<in> ledger (initial_state ev)"
    by (simp_all add: initial_state_def)
  have keys: "store_keys (store (snd (main ev cl filter_re))) = store_keys content @ marks ?tr"
    using main_keys_follow [of ev cl filter_re] c init(1) by simp
  have unmarked: "F \<notin> set (marks ?tr)"
    using known_never_submitted [OF init(2), of cl filter_re] by (simp add: marks_iff)
  show "store_keys (store (snd (main ev cl filter_re))) = store_keys content @ marks ?tr"
    by (rule keys)
  show "F \<notin> set (marks ?tr)" by (rule unmarked)
  show "count_list (store_keys (store (snd (main ev cl filter_re)))) F = count_list (store_keys content) F"
    unfolding keys using unmarked by simp
qed

text \<open>
  The theorem on a flat directory of three images, resuming from a store that has the
  second one; the second run is given a service that never answers.
\<close>

theorem resumable_idempotence_witness:
  "main flat_resumed_env always_prone default_filter_re = (None, first_run_state) \<and>
   GaveUp \<notin> set (trace first_run_state) \<and>
   terminated (store (initial_state flat_resumed_env)) \<and>
   marks (trace first_run_state) = [''001.jpg'', ''003.png''] \<and>
   clean_key ''001.jpg'' \<and> clean_key ''003.png'' \<and>
   (fst (main (flat_resumed_env\<lparr>responses_file := Some (store first_run_state)\<rparr>)
          always_fails default_filter_re) = None \<and>
    submits (trace (snd (main (flat_resumed_env\<lparr>responses_file := Some (store first_run_state)\<rparr>)
          always_fails default_filter_re))) = [] \<and>
    calls (snd (main (flat_resumed_env\<lparr>responses_file := Some (store first_run_state)\<rparr>)
          always_fails default_filter_re)) = 0 \<and>
    store (snd (main (flat_resumed_env\<lparr>responses_file := Some (store first_run_state)\<rparr>)
          always_fails default_filter_re)) = store first_run_state) \<and>
   ''002.jpg'' \<in> load_ledger (''002.jpg, supine'' @ [LF]) \<and>
   (\<forall>d. Submit (join d ''002.jpg'') \<notin> set (trace (snd (main flat_resumed_env always_prone default_filter_re)))) \<and>
   Mark ''002.jpg'' \<notin> set (trace (snd (main flat_resumed_env always_prone default_filter_re))) \<and>
   terminated (''002.jpg, supine'' @ [LF]) \<and>
   writes (trace first_run_state) = [''001.jpg, prone'' @ [LF], ''003.png, prone'' @ [LF]] \<and>
   one_line (''001.jpg, prone'' @ [LF]) \<and> one_line (''003.png, prone'' @ [LF]) \<and>
   store_keys (store (snd (main flat_resumed_env always_prone default_filter_re))) =
     store_keys (''002.jpg, supine'' @ [LF]) @
     marks (trace (snd (main flat_resumed_env always_prone default_filter_re))) \<and>
   count_list (store_keys (store (snd (main flat_resumed_env always_prone default_filter_re)))) ''002.jpg''
     = count_list (store_keys (''002.jpg, supine'' @ [LF])) ''002.jpg''"
proof -
  note T = resumable_idempotence [of flat_resumed_env always_prone default_filter_re first_run_state
        always_fails "''002.jpg, supine'' @ [LF]" "''002.jpg''"]
  have h1: "main flat_resumed_env always_prone default_filter_re = (None, first_run_state)"
    by code_simp
  have h2: "GaveUp \<notin> set (trace first_run_state)" by (simp add: first_run_state_def)
  have h3: "terminated (store (initial_state flat_resumed_env))"
    by (simp add: terminated_def initial_state_def flat_resumed_env_def)
  have h4: "marks (trace first_run_state) = [''001.jpg'', ''003.png'']"
    by (simp add: first_run_state_def)
  have h5: "clean_key ''001.jpg''" "clean_key ''003.png''"
    by (simp_all add: clean_key_def is_space_def)
  have h6: "\<forall>f \<in> set (marks (trace first_run_state)). clean_key f"
    unfolding h4 using h5 by simp
  have h7: "responses_file flat_resumed_env = Some (''002.jpg, supine'' @ [LF])"
    by (simp add: flat_resumed_env_def)
  have h8: "''002.jpg'' \<in> load_ledger (''002.jpg, supine'' @ [LF])"
    by code_simp
  have h9: "terminated (''002.jpg, supine'' @ [LF])" by (simp add: terminated_def)
  have h10: "writes (trace first_run_state) = [''001.jpg, prone'' @ [LF], ''003.png, prone'' @ [LF]]"
    by (simp add: first_run_state_def)
  have h11: "one_line (''001.jpg, prone'' @ [LF])" "one_line (''003.png, prone'' @ [LF])"
    by (simp_all add: one_line_def)
  have tr: "trace (snd (main flat_resumed_env always_prone default_filter_re)) = trace first_run_state"
    unfolding h1 by simp
  have h12: "\<forall>f \<in> set (marks (trace (snd (main flat_resumed_env always_prone default_filter_re)))).
      clean_key f"
    unfolding tr by (rule h6)
  have h13: "\<forall>l \<in> set (writes (trace (snd (main flat_resumed_env always_prone default_filter_re)))).
      one_line l"
    unfolding tr h10 using h11 by simp
  note c1 = T [THEN conjunct1, THEN mp, OF conjI [OF h1 conjI [OF h2 conjI [OF h3 h6]]]]
  note c2 = T [THEN conjunct2, THEN conjunct1, THEN mp, OF conjI [OF h7 h8]]
  note c3 = T [THEN conjunct2, THEN conjunct2, THEN mp,
      OF conjI [OF h7 conjI [OF h8 conjI [OF h9 conjI [OF h12 h13]]]]]
  show ?thesis
    by (intro conjI h1 h2 h3 h4 h5 c1 h8 c2 [THEN conjunct1] c2 [THEN conjunct2, THEN conjunct1]
        h9 h10 h11 c3 [THEN conjunct1] c3 [THEN conjunct2, THEN conjunct2])
qed

section \<open>The walk over the tree\<close>

text \<open>
  C5. The code at the input where the claim fails: the root holds \<^verbatim>\<open>1.jpg\<close> and
  the subdirectory \<^verbatim>\<open>A\<close> with \<^verbatim>\<open>2.jpg\<close>. The walk yields a second triple, for
  \<^verbatim>\<open>A\<close>, which has no subdirectories; line 181 then scans the root itself, and
  \<^verbatim>\<open>1.jpg\<close> is submitted after \<^verbatim>\<open>A/2.jpg\<close>.
\<close>

theorem root_scanned_beside_subdirectory:
  "walk [] mixed_tree = [([], [''A''], [''1.jpg'']), ([''A''], [], [''2.jpg''])] \<and>
   main mixed_env always_prone default_filter_re =
     (None, \<lparr>store = ''2.jpg, prone'' @ [LF] @ ''1.jpg, prone'' @ [LF],
             ledger = {''1.jpg'', ''2.jpg''}, calls = 2,
             trace = [Submit [''A'', ''2.jpg''], Write (''2.jpg, prone'' @ [LF]), Flush, Mark ''2.jpg'',
                      Submit [''1.jpg''], Write (''1.jpg, prone'' @ [LF]), Flush, Mark ''1.jpg'']\<rparr>)"
  by code_simp

section \<open>An image that cannot be opened\<close>

text \<open>
  What does hold: a failure of the remote call never ends the run. When every regular
  file can be opened as an image and every directory the loop scans can be listed, the
  run ends without an exception whatever the service does; after an item was given up
  the loop goes on with the next entry; and a prompt file or a store that cannot be
  opened ends the run before anything was submitted.
\<close>

lemma process_entries_ends:
  "\<forall>p. isfile fs p \<longrightarrow> image_open fs p \<Longrightarrow>
   fst (process_entries fs filter_re cl d names s) = None"
  by (induction names arbitrary: s) auto

lemma send_ends:
  "\<forall>p. isfile fs p \<longrightarrow> image_open fs p \<Longrightarrow> listdir fs d \<noteq> None \<Longrightarrow>
   fst (send_filtered_image_prompts_for_directory fs filter_re cl d s) = None"
  by (auto simp: send_filtered_image_prompts_for_directory_def process_entries_ends)

lemma subdirs_loop_ends:
  "\<forall>p. isfile fs p \<longrightarrow> image_open fs p \<Longrightarrow>
   \<forall>sub \<in> set subs. listdir fs (join [] sub) \<noteq> None \<Longrightarrow>
   fst (subdirs_loop fs filter_re cl subs s) = None"
proof (induction subs arbitrary: s)
  case Nil
  show ?case by simp
next
  case (Cons sub rest)
  have "fst (send_filtered_image_prompts_for_directory fs filter_re cl (join [] sub) s) = None"
    using Cons.prems by (intro send_ends) simp_all
  then obtain t where "send_filtered_image_prompts_for_directory fs filter_re cl (join [] sub) s = (None, t)"
    by (metis prod.collapse)
  then show ?case using Cons by simp
qed

lemma walk_loop_ends:
  "\<forall>p. isfile fs p \<longrightarrow> image_open fs p \<Longrightarrow> \<forall>e \<in> set entries. scannable fs e \<Longrightarrow>
   fst (walk_loop fs filter_re cl entries s) = None"
proof (induction entries arbitrary: s)
  case Nil
  show ?case by simp
next
  case (Cons entry rest)
  obtain dirpath dirnames filenames where entry: "entry = (dirpath, dirnames, filenames)"
    by (cases entry) auto
  define body where "body =
    (if dirnames = [] then send_filtered_image_prompts_for_directory fs filter_re cl [] s
     else subdirs_loop fs filter_re cl (sort dirnames) s)"
  have "scannable fs entry" using Cons.prems(2) by simp
  then have "fst body = None"
    unfolding body_def using Cons.prems(1) entry
    by (auto simp: scannable_def intro: send_ends subdirs_loop_ends)
  then obtain t where "body = (None, t)" by (metis prod.collapse)
  then show ?case using Cons entry body_def by simp
qed

lemma remote_failures_contained:
  assumes "prompt_file ev \<noteq> None" and "responses_appendable ev"
    and "\<forall>p. isfile (image_directory ev) p \<longrightarrow> image_open (image_directory ev) p"
    and "\<forall>e \<in> set (walk [] (image_directory ev)). scannable (image_directory ev) e"
  shows "fst (main ev cl filter_re) = None"
  using assms walk_loop_ends [of "image_directory ev"]
  by (auto simp: main_def)

lemma configuration_errors_abort_first:
  "prompt_file ev = None \<or> \<not> responses_appendable ev \<Longrightarrow>
   fst (main ev cl filter_re) \<noteq> None \<and> trace (snd (main ev cl filter_re)) = []"
  by (auto simp: main_def initial_state_def split: option.splits)

lemma item_given_up_loop_goes_on:
  assumes "filter_re fn" "fn \<notin> ledger s" "isfile fs (join d fn)" "image_open fs (join d fn)"
  shows "process_entries fs filter_re cl d (fn # rest) s =
         process_entries fs filter_re cl d rest (retry_loop cl (join d fn) fn 0 s)"
  using assms by simp

text \<open>
  C6. The code at the input where the claim fails: three files that match, the second
  one not readable as an image. \<^verbatim>\<open>Image.open\<close> at line 88 stands outside the
  \<^verbatim>\<open>try\<close>, so the run ends there with an exception, after one submission and before
  the third file; a rerun from the store it left ends at the same file.
\<close>

theorem unreadable_image_aborts_batch:
  "main broken_env always_prone default_filter_re =
     (Some (ImageOpenError [''2.jpg'']),
      \<lparr>store = ''1.jpg, prone'' @ [LF], ledger = {''1.jpg''}, calls = 1,
       trace = [Submit [''1.jpg''], Write (''1.jpg, prone'' @ [LF]), Flush, Mark ''1.jpg'']\<rparr>) \<and>
   main (broken_env\<lparr>responses_file := Some (''1.jpg, prone'' @ [LF])\<rparr>) always_prone default_filter_re =
     (Some (ImageOpenError [''2.jpg'']),
      \<lparr>store = ''1.jpg, prone'' @ [LF], ledger = {''1.jpg''}, calls = 0,
       trace = [Skipping ''1.jpg'']\<rparr>)"
  by code_simp

end
